theory Spec2Isabelle
  imports Main "HOL-Library.Word" "HOL-Library.Sublist" "HOL-Library.Multiset"
begin

unbundle bit_operations_syntax

section \<open>The clipboard codec of arrowcopypaste\<close>

text \<open>
  A shallow embedding of \<^verbatim>\<open>arrowcopypaste.py\<close>. Python integers are \<open>int\<close>, a
  \<^verbatim>\<open>bytes\<close> object is a list of 8-bit words, a \<^verbatim>\<open>str\<close> is a \<open>string\<close>. A raised
  exception is the \<open>Inl\<close> of a sum; a call that never returns (the generator
  \<^verbatim>\<open>pack_vlc\<close> on a negative number) is \<open>None\<close>.
\<close>

subsection \<open>Exceptions and values\<close>

text \<open>
  The module raises \<^verbatim>\<open>ValueError('Invalid data')\<close> and \<^verbatim>\<open>ValueError()\<close> itself;
  \<^verbatim>\<open>base64.a85decode\<close> raises \<^verbatim>\<open>ValueError\<close> with a message of its own and
  \<^verbatim>\<open>struct.pack\<close> raises \<^verbatim>\<open>struct.error\<close>. The argument of \<open>ValueError\<close> is the
  message, \<open>None\<close> for \<^verbatim>\<open>ValueError()\<close>.
\<close>

datatype error = ValueError "string option" | StructError

type_synonym byte = "8 word"

text \<open>
  A Python \<^verbatim>\<open>float\<close> is carried as its IEEE-754 binary64 bit pattern: the codec only
  ever moves the eight bytes of a float and never computes with it.
\<close>

type_synonym float64 = "64 word"

record Note =
  start :: int
  end' :: int
  column :: int
  special :: int

definition is_step :: "Note \<Rightarrow> bool" where
  "is_step n \<longleftrightarrow> special n \<le> 0 \<and> start n = end' n"

definition is_mine :: "Note \<Rightarrow> bool" where
  "is_mine n \<longleftrightarrow> special n = 1 \<and> start n = end' n"

definition is_lift :: "Note \<Rightarrow> bool" where
  "is_lift n \<longleftrightarrow> special n = 3 \<and> start n = end' n"

definition is_fake :: "Note \<Rightarrow> bool" where
  "is_fake n \<longleftrightarrow> special n = 4 \<and> start n = end' n"

definition is_hold :: "Note \<Rightarrow> bool" where
  "is_hold n \<longleftrightarrow> special n = 0 \<and> start n \<noteq> end' n"

definition is_roll :: "Note \<Rightarrow> bool" where
  "is_roll n \<longleftrightarrow> special n \<noteq> 0 \<and> start n \<noteq> end' n"

definition Note :: "int \<Rightarrow> int \<Rightarrow> int \<Rightarrow> int \<Rightarrow> Note" where
  "Note s e c sp = \<lparr>start = s, end' = e, column = c, special = sp\<rparr>"

definition make_step :: "int \<Rightarrow> int \<Rightarrow> Note" where
  "make_step tick col = Note tick tick col (- 1)"

definition make_mine :: "int \<Rightarrow> int \<Rightarrow> Note" where
  "make_mine tick col = Note tick tick col 1"

definition make_lift :: "int \<Rightarrow> int \<Rightarrow> Note" where
  "make_lift tick col = Note tick tick col 3"

definition make_fake :: "int \<Rightarrow> int \<Rightarrow> Note" where
  "make_fake tick col = Note tick tick col 4"

definition make_hold :: "int \<Rightarrow> int \<Rightarrow> int \<Rightarrow> Note" where
  "make_hold s e col = Note s e col 0"

definition make_roll :: "int \<Rightarrow> int \<Rightarrow> int \<Rightarrow> Note" where
  "make_roll s e col = Note s e col 2"

subsection \<open>The struct module: fixed-width little-endian fields\<close>

text \<open>
  \<open>le_bytes n x\<close> are the \<open>n\<close> least significant bytes of \<open>x\<close>, lowest first, and
  \<open>le_nat\<close> reads such a field back.
\<close>

fun le_bytes :: "nat \<Rightarrow> nat \<Rightarrow> byte list" where
  "le_bytes 0 x = []"
| "le_bytes (Suc n) x = of_nat (x mod 256) # le_bytes n (x div 256)"

fun le_nat :: "byte list \<Rightarrow> nat" where
  "le_nat [] = 0"
| "le_nat (b # bs) = unat b + 256 * le_nat bs"

datatype format = Fmt_B | Fmt_I | Fmt_d

fun calcsize :: "format \<Rightarrow> nat" where
  "calcsize Fmt_B = 1"
| "calcsize Fmt_I = 4"
| "calcsize Fmt_d = 8"

text \<open>\<^verbatim>\<open>struct.pack('<B', x)\<close> and \<^verbatim>\<open>struct.pack('<I', x)\<close> refuse a number out of range.\<close>

definition pack_B :: "int \<Rightarrow> error + byte list" where
  "pack_B x = (if 0 \<le> x \<and> x \<le> 255 then Inr (le_bytes 1 (nat x)) else Inl StructError)"

definition pack_I :: "int \<Rightarrow> error + byte list" where
  "pack_I x = (if 0 \<le> x \<and> x \<le> 4294967295 then Inr (le_bytes 4 (nat x)) else Inl StructError)"

definition pack_d :: "float64 \<Rightarrow> byte list" where
  "pack_d x = le_bytes 8 (unat x)"

text \<open>
  The closure \<^verbatim>\<open>unpack(format)\<close> of both decoders, with the captured buffer and
  cursor as arguments: it returns the bytes of the field and the advanced cursor.
\<close>

definition unpack :: "format \<Rightarrow> byte list \<Rightarrow> nat \<Rightarrow> error + (byte list \<times> nat)" where
  "unpack fmt data offset =
     (let size = calcsize fmt
      in if offset + size > length data then Inl (ValueError None)
         else Inr (take size (drop offset data), offset + size))"

definition unpack_B :: "byte list \<Rightarrow> nat \<Rightarrow> error + (int \<times> nat)" where
  "unpack_B data offset = map_sum id (\<lambda>(bs, off). (int (le_nat bs), off)) (unpack Fmt_B data offset)"

definition unpack_I :: "byte list \<Rightarrow> nat \<Rightarrow> error + (int \<times> nat)" where
  "unpack_I data offset = map_sum id (\<lambda>(bs, off). (int (le_nat bs), off)) (unpack Fmt_I data offset)"

definition unpack_d :: "byte list \<Rightarrow> nat \<Rightarrow> error + (float64 \<times> nat)" where
  "unpack_d data offset = map_sum id (\<lambda>(bs, off). (of_nat (le_nat bs), off)) (unpack Fmt_d data offset)"

subsection \<open>Variable-length integers\<close>

text \<open>
  The generator \<^verbatim>\<open>pack_vlc\<close>. Each yielded byte is \<^verbatim>\<open>struct.pack('<B', byte)\<close> with
  \<open>byte\<close> between 0 and 255, which cannot raise. On a negative number \<open>value >> 7\<close>
  never reaches 0 and the generator never ends: the result is \<open>None\<close>.
\<close>

partial_function (option) pack_vlc :: "int \<Rightarrow> byte list option" where
  "pack_vlc val =
     (let byte = val AND 0x7f;
          val' = drop_bit 7 val;
          done = (val' = 0)
      in if \<not> done
         then Option.bind (pack_vlc val') (\<lambda>rest. Some (of_int (byte OR 0x80) # rest))
         else Some [of_int byte])"

text \<open>
  The closure \<^verbatim>\<open>unpack_vlc\<close>: the loop state is the cursor, \<open>value\<close> and \<open>num_bytes\<close>.
\<close>

function unpack_vlc_loop :: "byte list \<Rightarrow> nat \<Rightarrow> int \<Rightarrow> nat \<Rightarrow> error + (int \<times> nat)" where
  "unpack_vlc_loop data offset val num_bytes =
     (case unpack_B data offset of
        Inl e \<Rightarrow> Inl e
      | Inr (byte, offset') \<Rightarrow>
          (let last = (byte AND 0x80 = 0);
               val' = val OR push_bit (7 * num_bytes) (byte AND 0x7f)
           in if \<not> last then unpack_vlc_loop data offset' val' (num_bytes + 1)
              else Inr (val', offset')))"
  by pat_completeness auto
termination
  by (relation "measure (\<lambda>(data, offset, val, num_bytes). length data - offset)")
     (auto simp: unpack_B_def unpack_def Let_def split: if_splits)

definition unpack_vlc :: "byte list \<Rightarrow> nat \<Rightarrow> error + (int \<times> nat)" where
  "unpack_vlc data offset = unpack_vlc_loop data offset 0 0"

subsection \<open>The text wrapper: Ascii85 of the base64 module\<close>

text \<open>
  \<^verbatim>\<open>base64.a85encode(b)\<close> with its default arguments, as \<^verbatim>\<open>Lib/base64.py\<close> computes
  it: the buffer is padded with zero bytes to a multiple of four, every big-endian
  32-bit word becomes five symbols from \<open>!\<close> (33) to \<open>u\<close> (117), a zero word becomes
  \<open>z\<close> (122), and the last chunk loses as many symbols as bytes were padded.
  Symbols are byte values, as Python iterates a \<^verbatim>\<open>bytes\<close> object.
\<close>

fun be_words :: "byte list \<Rightarrow> nat list" where
  "be_words (a # b # c # d # rest) = le_nat [d, c, b, a] # be_words rest"
| "be_words _ = []"

definition a85chars2 :: "nat \<Rightarrow> nat list" where
  "a85chars2 k = [33 + k div 85, 33 + k mod 85]"

definition a85_chunk :: "nat \<Rightarrow> nat list" where
  "a85_chunk word =
     (if word = 0 then [122]
      else a85chars2 (word div 614125) @ a85chars2 (word div 85 mod 7225) @ [33 + word mod 85])"

definition a85encode :: "byte list \<Rightarrow> nat list" where
  "a85encode b =
     (let padding = (4 - length b mod 4) mod 4;
          b' = b @ replicate padding 0;
          chunks = map a85_chunk (be_words b');
          chunks' =
            (if padding \<noteq> 0
             then (let c = (if last chunks = [122] then replicate 5 33 else last chunks)
                   in butlast chunks @ [take (length c - padding) c])
             else chunks)
      in concat chunks')"

text \<open>\<^verbatim>\<open>bytes.decode('ascii')\<close> on the symbols, all of them below 128.\<close>

definition decode_ascii :: "nat list \<Rightarrow> string" where
  "decode_ascii bs = map char_of bs"

text \<open>
  \<^verbatim>\<open>base64.a85decode(s)\<close> on a \<^verbatim>\<open>str\<close>, with its default arguments. The string is
  first encoded as ASCII, which fails on any other character. The loop runs over the
  symbols followed by four \<open>u\<close>; \<open>cur\<close> collects up to five digits.
\<close>

fun a85_loop :: "nat list \<Rightarrow> byte list \<Rightarrow> nat list \<Rightarrow> error + (byte list \<times> nat list)" where
  "a85_loop [] decoded cur = Inr (decoded, cur)"
| "a85_loop (x # xs) decoded cur =
     (if 33 \<le> x \<and> x \<le> 117 then
        (let cur' = cur @ [x]
         in if length cur' = 5 then
              (let acc = foldl (\<lambda>acc x. 85 * acc + (x - 33)) 0 cur'
               in if acc \<le> 4294967295
                  then a85_loop xs (decoded @ rev (le_bytes 4 acc)) []
                  else Inl (ValueError (Some ''Ascii85 overflow'')))
            else a85_loop xs decoded cur')
      else if x = 122 then
        (if cur \<noteq> [] then Inl (ValueError (Some ''z inside Ascii85 5-tuple''))
         else a85_loop xs (decoded @ [0, 0, 0, 0]) cur)
      else if x \<in> set [32, 9, 10, 13, 11] then a85_loop xs decoded cur
      else Inl (ValueError (Some (''Non-Ascii85 digit found: '' @ [char_of x]))))"

definition a85decode :: "string \<Rightarrow> error + byte list" where
  "a85decode s =
     (if \<exists>c \<in> set s. (128::nat) \<le> of_char c
      then Inl (ValueError (Some ''string argument should contain only ASCII characters''))
      else (case a85_loop (map of_char s @ replicate 4 117) [] [] of
              Inl e \<Rightarrow> Inl e
            | Inr (result, cur) \<Rightarrow>
                (let padding = 4 - length cur
                 in Inr (if padding \<noteq> 0 then take (length result - padding) result
                         else result))))"

subsection \<open>Tempo codec\<close>

definition TEMPO_MAGIC :: string where
  "TEMPO_MAGIC = ''ArrowVortex:tempo:''"

definition NOTES_MAGIC :: string where
  "NOTES_MAGIC = ''ArrowVortex:notes:''"

type_synonym tempo_item = "int \<times> float64"

text \<open>The body of \<^verbatim>\<open>for item in data\<close>, then the loop; \<open>blocks\<close> is the joined list.\<close>

definition pack_item :: "tempo_item \<Rightarrow> byte list \<Rightarrow> error + byte list" where
  "pack_item item blocks =
     (case pack_I (fst item) of
        Inl e \<Rightarrow> Inl e
      | Inr t \<Rightarrow> Inr (blocks @ t @ pack_d (snd item)))"

fun pack_items :: "tempo_item list \<Rightarrow> byte list \<Rightarrow> error + byte list" where
  "pack_items [] blocks = Inr blocks"
| "pack_items (item # rest) blocks =
     (case pack_item item blocks of
        Inl e \<Rightarrow> Inl e
      | Inr blocks' \<Rightarrow> pack_items rest blocks')"

definition pack_tempo_block :: "tempo_item list \<Rightarrow> int \<Rightarrow> byte list \<Rightarrow> error + byte list" where
  "pack_tempo_block data type blocks =
     (case pack_B (int (length data)) of
        Inl e \<Rightarrow> Inl e
      | Inr c \<Rightarrow>
          (case pack_B type of
             Inl e \<Rightarrow> Inl e
           | Inr t \<Rightarrow> pack_items data (blocks @ c @ t)))"

text \<open>\<^verbatim>\<open>range(i, stop, step)\<close> for a positive step.\<close>

function py_range :: "nat \<Rightarrow> nat \<Rightarrow> nat \<Rightarrow> nat list" where
  "py_range i stop step =
     (if 0 < step \<and> i < stop then i # py_range (i + step) stop step else [])"
  by pat_completeness auto
termination
  by (relation "measure (\<lambda>(i, stop, step). stop - i)") auto

text \<open>\<^verbatim>\<open>for i in range(0, len(xs), 254): pack_tempo_block(xs[i:i+254], type)\<close>.\<close>

fun pack_blocks :: "nat list \<Rightarrow> tempo_item list \<Rightarrow> int \<Rightarrow> byte list \<Rightarrow> error + byte list" where
  "pack_blocks [] xs type blocks = Inr blocks"
| "pack_blocks (i # is) xs type blocks =
     (case pack_tempo_block (take 254 (drop i xs)) type blocks of
        Inl e \<Rightarrow> Inl e
      | Inr blocks' \<Rightarrow> pack_blocks is xs type blocks')"

text \<open>The bytes handed to \<^verbatim>\<open>a85encode\<close>, then the function itself.\<close>

definition tempo_payload :: "tempo_item list \<Rightarrow> tempo_item list \<Rightarrow> error + byte list" where
  "tempo_payload bpms stops =
     (let bpms = sort_key fst bpms;
          stops = sort_key fst stops
      in case pack_blocks (py_range 0 (length bpms) 254) bpms 0 [] of
           Inl e \<Rightarrow> Inl e
         | Inr blocks \<Rightarrow>
             (case pack_blocks (py_range 0 (length stops) 254) stops 1 blocks of
                Inl e \<Rightarrow> Inl e
              | Inr blocks' \<Rightarrow>
                  (case pack_B 0 of
                     Inl e \<Rightarrow> Inl e
                   | Inr z \<Rightarrow> Inr (blocks' @ z))))"

definition tempo_to_clipboard_data :: "tempo_item list \<Rightarrow> tempo_item list \<Rightarrow> error + string" where
  "tempo_to_clipboard_data bpms stops =
     (case tempo_payload bpms stops of
        Inl e \<Rightarrow> Inl e
      | Inr blocks \<Rightarrow> Inr (TEMPO_MAGIC @ decode_ascii (a85encode blocks)))"

text \<open>
  The decoder. \<open>read_items\<close> is \<^verbatim>\<open>for _ in range(count)\<close>: both fields of an item are
  read before its type is looked at. \<open>read_blocks\<close> is \<^verbatim>\<open>while True\<close>; it returns the
  cursor too, which the Python function drops.
\<close>

fun read_items ::
  "nat \<Rightarrow> int \<Rightarrow> byte list \<Rightarrow> nat \<Rightarrow> tempo_item list \<Rightarrow> tempo_item list
   \<Rightarrow> error + (tempo_item list \<times> tempo_item list \<times> nat)" where
  "read_items 0 type data offset bpms stops = Inr (bpms, stops, offset)"
| "read_items (Suc k) type data offset bpms stops =
     (case unpack_I data offset of
        Inl e \<Rightarrow> Inl e
      | Inr (tick, off1) \<Rightarrow>
          (case unpack_d data off1 of
             Inl e \<Rightarrow> Inl e
           | Inr (val, off2) \<Rightarrow>
               (let item = (tick, val)
                in if type = 0 then read_items k type data off2 (bpms @ [item]) stops
                   else if type = 1 then read_items k type data off2 bpms (stops @ [item])
                   else Inl (ValueError None))))"

lemma unpack_offset:
  "unpack fmt data offset = Inr (bs, off) \<Longrightarrow> off = offset + calcsize fmt \<and> off \<le> length data"
  by (auto simp: unpack_def Let_def split: if_splits)

lemma unpack_B_offset: "unpack_B data offset = Inr (x, off) \<Longrightarrow> off = offset + 1 \<and> off \<le> length data"
  by (cases "unpack Fmt_B data offset") (auto simp: unpack_B_def dest: unpack_offset)

lemma unpack_I_offset: "unpack_I data offset = Inr (x, off) \<Longrightarrow> off = offset + 4 \<and> off \<le> length data"
  by (cases "unpack Fmt_I data offset") (auto simp: unpack_I_def dest: unpack_offset)

lemma unpack_d_offset: "unpack_d data offset = Inr (x, off) \<Longrightarrow> off = offset + 8 \<and> off \<le> length data"
  by (cases "unpack Fmt_d data offset") (auto simp: unpack_d_def dest: unpack_offset)

lemma read_items_offset:
  "read_items k type data offset bpms stops = Inr (bpms', stops', off) \<Longrightarrow> offset \<le> off"
proof (induction k arbitrary: offset bpms stops)
  case 0
  then show ?case by simp
next
  case (Suc k)
  from Suc.prems obtain tick off1 val off2 where
    r: "unpack_I data offset = Inr (tick, off1)" "unpack_d data off1 = Inr (val, off2)"
    by (auto split: sum.splits)
  from Suc.prems r Suc.IH have "off2 \<le> off"
    by (auto simp: Let_def split: if_splits)
  with r show ?case
    by (auto dest!: unpack_I_offset unpack_d_offset)
qed

function read_blocks ::
  "byte list \<Rightarrow> nat \<Rightarrow> tempo_item list \<Rightarrow> tempo_item list
   \<Rightarrow> error + (tempo_item list \<times> tempo_item list \<times> nat)" where
  "read_blocks data offset bpms stops =
     (case unpack_B data offset of
        Inl e \<Rightarrow> Inl e
      | Inr (cnt, off1) \<Rightarrow>
          if cnt = 0 then Inr (bpms, stops, off1)
          else (case unpack_B data off1 of
                  Inl e \<Rightarrow> Inl e
                | Inr (type, off2) \<Rightarrow>
                    (case read_items (nat cnt) type data off2 bpms stops of
                       Inl e \<Rightarrow> Inl e
                     | Inr (bpms', stops', off3) \<Rightarrow> read_blocks data off3 bpms' stops')))"
  by pat_completeness auto
termination
proof (relation "measure (\<lambda>(data, offset, bpms, stops). length data - offset)", goal_cases)
  case 1
  show ?case by simp
next
  case (2 data offset bpms stops x2 cnt off1 x2a type off2 x2b bpms' x2c stops' off3)
  then have "off1 = offset + 1" "off1 \<le> length data" "off2 = off1 + 1" "off2 \<le> off3"
    by (auto dest: unpack_B_offset read_items_offset)
  then show ?case by simp
qed

definition clipboard_data_to_tempo :: "string \<Rightarrow> error + (tempo_item list \<times> tempo_item list)" where
  "clipboard_data_to_tempo data =
     (if \<not> prefix TEMPO_MAGIC data then Inl (ValueError (Some ''Invalid data''))
      else (case a85decode (drop (length TEMPO_MAGIC) data) of
              Inl e \<Rightarrow> Inl e
            | Inr bytes \<Rightarrow>
                (case read_blocks bytes 0 [] [] of
                   Inl e \<Rightarrow> Inl e
                 | Inr (bpms, stops, off) \<Rightarrow> Inr (bpms, stops))))"

subsection \<open>Note codec\<close>

text \<open>
  The body of \<^verbatim>\<open>for note in notes\<close> appends to \<open>data\<close>, in the order of the source:
  the control byte, the tick or ticks, and in the long form the byte of \<open>special\<close>.
\<close>

definition pack_note :: "Note \<Rightarrow> byte list \<Rightarrow> (error + byte list) option" where
  "pack_note n data =
     (if is_step n then
        (case pack_B (column n AND 0x7f) of
           Inl e \<Rightarrow> Some (Inl e)
         | Inr c \<Rightarrow>
             (case pack_vlc (start n) of
                None \<Rightarrow> None
              | Some s \<Rightarrow> Some (Inr (data @ c @ s))))
      else
        (case pack_B (column n OR 0x80) of
           Inl e \<Rightarrow> Some (Inl e)
         | Inr c \<Rightarrow>
             (case pack_vlc (start n) of
                None \<Rightarrow> None
              | Some s \<Rightarrow>
                  (case pack_vlc (end' n) of
                     None \<Rightarrow> None
                   | Some e \<Rightarrow>
                       (case pack_B (special n) of
                          Inl er \<Rightarrow> Some (Inl er)
                        | Inr sp \<Rightarrow> Some (Inr (data @ c @ s @ e @ sp)))))))"

fun pack_notes :: "Note list \<Rightarrow> byte list \<Rightarrow> (error + byte list) option" where
  "pack_notes [] data = Some (Inr data)"
| "pack_notes (n # ns) data =
     (case pack_note n data of
        None \<Rightarrow> None
      | Some (Inl e) \<Rightarrow> Some (Inl e)
      | Some (Inr data') \<Rightarrow> pack_notes ns data')"

definition notes_payload :: "Note list \<Rightarrow> (error + byte list) option" where
  "notes_payload notes =
     (case pack_B 0 of
        Inl e \<Rightarrow> Some (Inl e)
      | Inr head \<Rightarrow>
          (case pack_vlc (int (length notes)) of
             None \<Rightarrow> None
           | Some cnt \<Rightarrow> pack_notes notes (head @ cnt)))"

definition notes_to_clipboard_data :: "Note list \<Rightarrow> (error + string) option" where
  "notes_to_clipboard_data notes =
     (case notes_payload notes of
        None \<Rightarrow> None
      | Some (Inl e) \<Rightarrow> Some (Inl e)
      | Some (Inr data) \<Rightarrow> Some (Inr (NOTES_MAGIC @ decode_ascii (a85encode data))))"

text \<open>\<open>read_notes\<close> is \<^verbatim>\<open>for _ in range(count)\<close> of the decoder, with the cursor.\<close>

fun read_notes :: "nat \<Rightarrow> byte list \<Rightarrow> nat \<Rightarrow> Note list \<Rightarrow> error + (Note list \<times> nat)" where
  "read_notes 0 data offset notes = Inr (notes, offset)"
| "read_notes (Suc k) data offset notes =
     (case unpack_B data offset of
        Inl e \<Rightarrow> Inl e
      | Inr (bits, off1) \<Rightarrow>
          (let is_long_format = (bits AND 0x80 \<noteq> 0);
               col = bits AND 0x7f
           in if is_long_format then
                (case unpack_vlc data off1 of
                   Inl e \<Rightarrow> Inl e
                 | Inr (st, off2) \<Rightarrow>
                     (case unpack_vlc data off2 of
                        Inl e \<Rightarrow> Inl e
                      | Inr (en, off3) \<Rightarrow>
                          (case unpack_B data off3 of
                             Inl e \<Rightarrow> Inl e
                           | Inr (sp, off4) \<Rightarrow>
                               read_notes k data off4 (notes @ [Note st en col sp]))))
              else
                (case unpack_vlc data off1 of
                   Inl e \<Rightarrow> Inl e
                 | Inr (st, off2) \<Rightarrow>
                     read_notes k data off2 (notes @ [Note st st col (- 1)]))))"

definition read_notes_payload :: "byte list \<Rightarrow> error + (Note list \<times> nat)" where
  "read_notes_payload data =
     (case unpack_B data 0 of
        Inl e \<Rightarrow> Inl e
      | Inr (head, off1) \<Rightarrow>
          (case unpack_vlc data off1 of
             Inl e \<Rightarrow> Inl e
           | Inr (cnt, off2) \<Rightarrow> read_notes (nat cnt) data off2 []))"

definition clipboard_data_to_notes :: "string \<Rightarrow> error + Note list" where
  "clipboard_data_to_notes data =
     (if \<not> prefix NOTES_MAGIC data then Inl (ValueError (Some ''Invalid data''))
      else (case a85decode (drop (length NOTES_MAGIC) data) of
              Inl e \<Rightarrow> Inl e
            | Inr bytes \<Rightarrow>
                (case read_notes_payload bytes of
                   Inl e \<Rightarrow> Inl e
                 | Inr (notes, off) \<Rightarrow> Inr notes)))"

subsection \<open>The layouts in the words of the format description\<close>

text \<open>
  A variable-length integer as the format describes it: the value in groups of seven
  bits, lowest group first, each byte with bit 7 set when another byte follows.
\<close>

function varint :: "nat \<Rightarrow> byte list" where
  "varint n = (if n < 128 then [of_nat n] else of_nat (128 + n mod 128) # varint (n div 128))"
  by pat_completeness auto
termination
  by (relation "measure id") auto

text \<open>The five base-85 digits of a 32-bit word, as Ascii85 symbols.\<close>

definition digits5 :: "nat \<Rightarrow> nat list" where
  "digits5 w = [33 + w div 52200625, 33 + w div 614125 mod 85, 33 + w div 7225 mod 85,
                33 + w div 85 mod 85, 33 + w mod 85]"

text \<open>
  What the encoder appends for one note, and what the decoder makes of it. A note is
  encodable when the generator ends and no field overflows its byte.
\<close>

definition note_bytes :: "Note \<Rightarrow> byte list" where
  "note_bytes n =
     (if is_step n then of_int (column n AND 0x7f) # varint (nat (start n))
      else of_int (column n OR 0x80) # varint (nat (start n)) @ varint (nat (end' n))
             @ [of_int (special n)])"

definition encodable :: "Note \<Rightarrow> bool" where
  "encodable n \<longleftrightarrow>
     0 \<le> start n \<and>
     (is_step n \<or> (0 \<le> end' n \<and> 0 \<le> column n \<and> column n \<le> 255
                   \<and> 0 \<le> special n \<and> special n \<le> 255))"

definition decoded :: "Note \<Rightarrow> Note" where
  "decoded n =
     (if is_step n then Note (start n) (start n) (column n AND 0x7f) (- 1)
      else Note (start n) (end' n) (column n AND 0x7f) (special n))"

text \<open>
  The record of one note in the words of the format description, with the short form
  for the notes that \<open>is_step\<close> accepts.
\<close>

definition note_record :: "Note \<Rightarrow> byte list" where
  "note_record n =
     (if special n \<le> 0 \<and> start n = end' n then of_int (column n) # varint (nat (start n))
      else of_int (column n OR 0x80) # varint (nat (start n)) @ varint (nat (end' n))
             @ [of_int (special n)])"

text \<open>
  The notes of the data model that the codec carries unchanged: ticks are not negative,
  the column is a lane from 0 to 127, and the note is either a plain step or a note
  with a tag byte that \<open>is_step\<close> does not take for a step.
\<close>

definition faithful :: "Note \<Rightarrow> bool" where
  "faithful n \<longleftrightarrow>
     0 \<le> start n \<and> 0 \<le> end' n \<and> 0 \<le> column n \<and> column n \<le> 127 \<and>
     ((special n = - 1 \<and> start n = end' n)
      \<or> (0 \<le> special n \<and> special n \<le> 255 \<and> (start n \<noteq> end' n \<or> special n \<noteq> 0)))"

text \<open>The notes whose fields fit the bytes of the format.\<close>

definition emittable :: "Note \<Rightarrow> bool" where
  "emittable n \<longleftrightarrow>
     0 \<le> start n \<and> 0 \<le> column n \<and> column n \<le> 127 \<and>
     ((special n \<le> 0 \<and> start n = end' n)
      \<or> (0 \<le> end' n \<and> 0 \<le> special n \<and> special n \<le> 255))"

text \<open>
  The tempo payload in the words of the format description: an item is its tick as four
  little-endian bytes and its value as eight; a block is the count, the type tag and the
  items; a list goes out in chunks of at most 254 items; one zero byte ends the payload.
\<close>

definition item_bytes :: "tempo_item \<Rightarrow> byte list" where
  "item_bytes item = le_bytes 4 (nat (fst item)) @ le_bytes 8 (unat (snd item))"

definition tempo_block :: "int \<Rightarrow> tempo_item list \<Rightarrow> byte list" where
  "tempo_block type items = of_nat (length items) # of_int type # concat (map item_bytes items)"

function chunks :: "nat \<Rightarrow> 'a list \<Rightarrow> 'a list list" where
  "chunks n xs = (if n = 0 \<or> xs = [] then [] else take n xs # chunks n (drop n xs))"
  by pat_completeness auto
termination
  by (relation "measure (\<lambda>(n, xs). length xs)") auto

definition tempo_layout :: "tempo_item list \<Rightarrow> tempo_item list \<Rightarrow> byte list" where
  "tempo_layout bpms stops =
     concat (map (tempo_block 0) (chunks 254 bpms)) @ concat (map (tempo_block 1) (chunks 254 stops))
     @ [0]"

text \<open>The ticks that fit the four bytes of the format.\<close>

definition tick_ok :: "tempo_item \<Rightarrow> bool" where
  "tick_ok item \<longleftrightarrow> 0 \<le> fst item \<and> fst item \<le> 4294967295"

text \<open>
  A block the decoder accepts: a type tag 0 or 1, from 1 to 255 items, ticks of 32 bits.
\<close>

definition valid_block :: "int \<times> tempo_item list \<Rightarrow> bool" where
  "valid_block blk \<longleftrightarrow>
     (fst blk = 0 \<or> fst blk = 1) \<and> 1 \<le> length (snd blk) \<and> length (snd blk) \<le> 255
     \<and> (\<forall>item \<in> set (snd blk). tick_ok item)"

definition block_bytes :: "int \<times> tempo_item list \<Rightarrow> byte list" where
  "block_bytes blk = tempo_block (fst blk) (snd blk)"

definition items_of_type :: "int \<Rightarrow> (int \<times> tempo_item list) list \<Rightarrow> tempo_item list" where
  "items_of_type type blks = concat (map snd (filter (\<lambda>blk. fst blk = type) blks))"

declare varint.simps [simp del]
declare unpack_vlc_loop.simps [simp del]
declare read_blocks.simps [simp del]
declare py_range.simps [simp del]

section \<open>Variable-length integers\<close>

lemma and_0x7f_int: "(v::int) AND 0x7f = v mod 128"
proof -
  have "v AND mask 7 = take_bit 7 v" by (simp only: take_bit_eq_mask)
  then show ?thesis by (simp add: mask_eq_exp_minus_1 take_bit_eq_mod)
qed

lemma or_0x80_int: "(v::int) mod 128 OR 0x80 = v mod 128 + 128"
proof -
  have "take_bit 7 v OR push_bit 7 1 = take_bit 7 v + push_bit 7 (1::int)"
    using concat_bit_eq[of 7 v 1] by (simp add: concat_bit_def)
  then show ?thesis by (simp add: take_bit_eq_mod push_bit_eq_mult)
qed

lemma and_0x80_int: "0 \<le> (b::int) \<Longrightarrow> b < 256 \<Longrightarrow> (b AND 0x80 = 0) = (b < 128)"
proof -
  assume b: "0 \<le> b" "b < 256"
  have "(b AND 2 ^ 7 = 0) = (\<not> bit b 7)"
    by (rule and_exp_eq_0_iff_not_bit)
  moreover have "bit b 7 = odd (b div 128)"
    by (simp add: bit_iff_odd)
  moreover have "odd (b div 128) = (\<not> b < 128)"
  proof (cases "b < 128")
    case True
    with b show ?thesis by simp
  next
    case False
    with b have "b div 128 = 1" by simp
    with False show ?thesis by simp
  qed
  ultimately show ?thesis by simp
qed

lemma pack_vlc_varint: "0 \<le> v \<Longrightarrow> pack_vlc v = Some (varint (nat v))"
proof (induction "nat v" arbitrary: v rule: less_induct)
  case less
  show ?case
  proof (cases "v < 128")
    case True
    with less.prems have "drop_bit 7 v = 0"
      by (simp add: drop_bit_eq_div)
    moreover from True less.prems have "nat v < 128" by linarith
    ultimately show ?thesis using True less.prems
      by (subst pack_vlc.simps, subst varint.simps) (simp add: and_0x7f_int)
  next
    case False
    then have nz: "drop_bit 7 v \<noteq> 0" and pos: "0 \<le> drop_bit 7 v" and lt: "nat (drop_bit 7 v) < nat v"
      using less.prems by (auto simp: drop_bit_eq_div)
    have IH: "pack_vlc (drop_bit 7 v) = Some (varint (nat (drop_bit 7 v)))"
      using less.hyps[OF lt pos] .
    have "int (nat v mod 128) = v mod 128"
      using less.prems by (simp add: zmod_int)
    then have e: "(word_of_int (v mod 128) :: byte) = word_of_nat (nat v mod 128)"
      by (metis of_int_of_nat_eq)
    have v: "varint (nat v) = of_nat (128 + nat v mod 128) # varint (nat v div 128)"
      using False less.prems by (subst varint.simps) simp
    have d: "nat (drop_bit 7 v) = nat v div 128"
      using less.prems by (simp add: drop_bit_eq_div nat_div_distrib)
    show ?thesis
      using nz IH
      by (subst pack_vlc.simps) (simp add: and_0x7f_int or_0x80_int e v d)
  qed
qed


lemma unpack_at:
  "length bs = calcsize fmt \<Longrightarrow> unpack fmt (pre @ bs @ post) (length pre) = Inr (bs, length pre + calcsize fmt)"
  by (simp add: unpack_def)

lemma unpack_B_at: "unpack_B (pre @ b # post) (length pre) = Inr (uint b, length pre + 1)"
  using unpack_at[of "[b]" Fmt_B pre post] by (simp add: unpack_B_def)

lemma unat_byte_of_nat: "n < 256 \<Longrightarrow> unat (of_nat n :: byte) = n"
  by (simp add: unat_of_nat)

lemma uint_byte_of_nat: "n < 256 \<Longrightarrow> uint (of_nat n :: byte) = int n"
  by (metis unat_byte_of_nat uint_nat)

lemma varint_length_pos: "0 < length (varint n)"
  by (subst varint.simps) simp

lemma push_bit_groups:
  "push_bit (7 * k) (int n mod 128) OR push_bit (7 * (k + 1)) (int n div 128) = push_bit (7 * k) (int n)"
proof -
  have "take_bit 7 (int n) OR push_bit 7 (drop_bit 7 (int n)) = int n"
    using concat_bit_eq[of 7 "int n" "drop_bit 7 (int n)"] bits_ident[of 7 "int n"]
    by (simp add: concat_bit_def)
  then have "push_bit (7 * k) (take_bit 7 (int n) OR push_bit 7 (drop_bit 7 (int n))) = push_bit (7 * k) (int n)"
    by simp
  then show ?thesis
    by (simp add: take_bit_eq_mod drop_bit_eq_div add.commute)
qed

lemma unpack_vlc_loop_varint:
  "unpack_vlc_loop (pre @ varint n @ post) (length pre) val k
     = Inr (val OR push_bit (7 * k) (int n), length pre + length (varint n))"
proof (induction n arbitrary: pre val k rule: varint.induct)
  case (1 n)
  show ?case
  proof (cases "n < 128")
    case True
    then have v: "varint n = [of_nat n]" by (subst varint.simps) simp
    from True have u: "uint (of_nat n :: byte) = int n"
      by (simp add: uint_byte_of_nat)
    from True have a: "int n mod 128 = int n" by simp
    from True have l: "(int n AND 0x80 = 0)" using and_0x80_int[of "int n"] by simp
    show ?thesis
      using unpack_B_at[of pre "of_nat n" post]
      by (subst unpack_vlc_loop.simps) (simp add: v u a l and_0x7f_int)
  next
    case False
    let ?b = "of_nat (128 + n mod 128) :: byte"
    from False have v: "varint n = ?b # varint (n div 128)" by (subst varint.simps) simp
    have u: "uint ?b = 128 + int n mod 128"
      using uint_byte_of_nat[of "128 + n mod 128"] by (simp add: zmod_int)
    have l: "(128 + int n mod 128) AND 0x80 \<noteq> 0"
      using and_0x80_int[of "128 + int n mod 128"] by simp
    have a: "(128 + int n mod 128) mod 128 = int n mod 128" by simp
    have IH: "unpack_vlc_loop ((pre @ [?b]) @ varint (n div 128) @ post) (length (pre @ [?b]))
                (val OR push_bit (7 * k) (int n mod 128)) (k + 1)
              = Inr ((val OR push_bit (7 * k) (int n mod 128)) OR push_bit (7 * (k + 1)) (int (n div 128)),
                     length (pre @ [?b]) + length (varint (n div 128)))"
      using "1.IH"[OF False] .
    have g: "(val OR push_bit (7 * k) (int n mod 128)) OR push_bit (7 * (k + 1)) (int (n div 128))
             = val OR push_bit (7 * k) (int n)"
      using push_bit_groups[of k n] by (simp add: or.assoc zdiv_int)
    note IH' = IH[unfolded g]
    show ?thesis
      using unpack_B_at[of pre ?b "varint (n div 128) @ post"] IH'
      by (subst unpack_vlc_loop.simps) (simp add: v u a l and_0x7f_int del: of_nat_add)
  qed
qed

lemma unpack_vlc_varint:
  "unpack_vlc (pre @ varint n @ post) (length pre) = Inr (int n, length pre + length (varint n))"
  by (simp add: unpack_vlc_def unpack_vlc_loop_varint)


lemma varint_nth:
  "i < length (varint n) \<Longrightarrow>
   uint (varint n ! i) = int (n div 128 ^ i mod 128) + (if Suc i < length (varint n) then 128 else 0)"
proof (induction n arbitrary: i rule: varint.induct)
  case (1 n)
  show ?case
  proof (cases "n < 128")
    case True
    then have v: "varint n = [of_nat n]" by (subst varint.simps) simp
    with "1.prems" have "i = 0" by simp
    with True v show ?thesis by (simp add: uint_byte_of_nat)
  next
    case False
    let ?b = "of_nat (128 + n mod 128) :: byte"
    from False have v: "varint n = ?b # varint (n div 128)" by (subst varint.simps) simp
    have u: "uint ?b = 128 + int n mod 128"
      using uint_byte_of_nat[of "128 + n mod 128"] by (simp add: zmod_int)
    show ?thesis
    proof (cases i)
      case 0
      with u varint_length_pos[of "n div 128"] show ?thesis
        by (simp add: v zmod_int del: of_nat_add)
    next
      case (Suc j)
      with "1.prems" v have j: "j < length (varint (n div 128))" by simp
      have "n div 128 ^ Suc j = n div 128 div 128 ^ j"
        by (simp add: div_mult2_eq)
      with "1.IH"[OF False j] Suc show ?thesis
        by (simp add: v del: of_nat_add power_Suc)
    qed
  qed
qed

text \<open>
  Claim C4. For every non-negative integer \<open>v\<close> the generator \<open>pack_vlc\<close> returns a
  non-empty byte string; \<open>unpack_vlc\<close>, started at that string anywhere in a buffer,
  returns \<open>v\<close> and leaves the cursor just behind it. Byte \<open>i\<close> of the string holds the
  bits \<open>7 i\<close> to \<open>7 i + 6\<close> of \<open>v\<close> in its low seven bits (little-endian groups), and
  its bit 7 is set exactly when another byte follows.
\<close>

theorem varint_roundtrip:
  assumes "0 \<le> v"
  shows "\<exists>bs. pack_vlc v = Some bs \<and> bs \<noteq> []
           \<and> unpack_vlc (pre @ bs @ post) (length pre) = Inr (v, length pre + length bs)
           \<and> (\<forall>i < length bs.
                 uint (bs ! i) AND 0x7f = drop_bit (7 * i) v AND 0x7f
               \<and> (uint (bs ! i) AND 0x80 \<noteq> 0) = (Suc i < length bs))"
proof -
  let ?bs = "varint (nat v)"
  have p: "pack_vlc v = Some ?bs"
    using assms by (rule pack_vlc_varint)
  have ne: "?bs \<noteq> []"
    using varint_length_pos[of "nat v"] by auto
  have u: "unpack_vlc (pre @ ?bs @ post) (length pre) = Inr (v, length pre + length ?bs)"
    using assms unpack_vlc_varint[of pre "nat v" post] by simp
  have s: "uint (?bs ! i) AND 0x7f = drop_bit (7 * i) v AND 0x7f
           \<and> (uint (?bs ! i) AND 0x80 \<noteq> 0) = (Suc i < length ?bs)" if i: "i < length ?bs" for i
  proof -
    let ?g = "int (nat v div 128 ^ i mod 128)"
    have g: "0 \<le> ?g" "?g < 128" by simp_all
    have n: "uint (?bs ! i) = ?g + (if Suc i < length ?bs then 128 else 0)"
      using i by (rule varint_nth)
    have d: "drop_bit (7 * i) v mod 128 = ?g"
      using assms by (simp add: drop_bit_eq_div power_mult zmod_int zdiv_int)
    have lo: "uint (?bs ! i) mod 128 = ?g"
      unfolding n using g by simp
    have hi: "(uint (?bs ! i) AND 0x80 = 0) = (uint (?bs ! i) < 128)"
      by (rule and_0x80_int) (use g n in \<open>auto split: if_splits\<close>)
    show ?thesis
      unfolding hi and_0x7f_int lo d using g n by (auto split: if_splits)
  qed
  from p ne u s show ?thesis by blast
qed

text \<open>The boundary values 0, 127, 128, 16383 and 16384 and their encodings.\<close>

lemma varint_0: "varint 0 = [0]" by (simp add: varint.simps)
lemma varint_127: "varint 127 = [127]" by (simp add: varint.simps)
lemma varint_128: "varint 128 = [128, 1]" by (simp add: varint.simps)
lemma varint_16383: "varint 16383 = [255, 127]" by (simp add: varint.simps)
lemma varint_16384: "varint 16384 = [128, 128, 1]" by (simp add: varint.simps)

theorem varint_roundtrip_witness:
  "pack_vlc 0 = Some [0] \<and> unpack_vlc [0] 0 = Inr (0, 1)
   \<and> pack_vlc 127 = Some [127] \<and> unpack_vlc [127] 0 = Inr (127, 1)
   \<and> pack_vlc 128 = Some [128, 1] \<and> unpack_vlc [128, 1] 0 = Inr (128, 2)
   \<and> pack_vlc 16383 = Some [255, 127] \<and> unpack_vlc [255, 127] 0 = Inr (16383, 2)
   \<and> pack_vlc 16384 = Some [128, 128, 1] \<and> unpack_vlc [128, 128, 1] 0 = Inr (16384, 3)"
proof -
  have r: "pack_vlc v = Some bs \<Longrightarrow> 0 \<le> v \<Longrightarrow> unpack_vlc bs 0 = Inr (v, length bs)" for v bs
    using varint_roundtrip[of v "[]" "[]"] by auto
  have p: "pack_vlc 0 = Some [0]" "pack_vlc 127 = Some [127]" "pack_vlc 128 = Some [128, 1]"
    "pack_vlc 16383 = Some [255, 127]" "pack_vlc 16384 = Some [128, 128, 1]"
    by (simp_all add: pack_vlc_varint varint_0 varint_127 varint_128 varint_16383 varint_16384)
  show ?thesis
    using p r[OF p(1)] r[OF p(2)] r[OF p(3)] r[OF p(4)] r[OF p(5)] by simp
qed

section \<open>The Ascii85 wrapper\<close>

lemma length_le_bytes [simp]: "length (le_bytes n x) = n"
  by (induction n arbitrary: x) auto

lemma le_nat_le_bytes: "x < 256 ^ n \<Longrightarrow> le_nat (le_bytes n x) = x"
proof (induction n arbitrary: x)
  case 0
  then show ?case by simp
next
  case (Suc n)
  then have "x div 256 < 256 ^ n"
    by (simp add: less_mult_imp_div_less mult.commute)
  with Suc.IH have "le_nat (le_bytes n (x div 256)) = x div 256" by simp
  then show ?case by (simp add: unat_of_nat)
qed

lemma le_nat_bound: "le_nat bs < 256 ^ length bs"
proof (induction bs)
  case Nil
  then show ?case by simp
next
  case (Cons b bs)
  have "unat b < 256" using unsigned_less[of b] by simp
  with Cons show ?case by simp
qed

lemma le_bytes_le_nat: "le_bytes (length bs) (le_nat bs) = bs"
proof (induction bs)
  case Nil
  then show ?case by simp
next
  case (Cons b bs)
  have b: "unat b < 256" using unsigned_less[of b] by simp
  then have "(unat b + 256 * le_nat bs) mod 256 = unat b" "(unat b + 256 * le_nat bs) div 256 = le_nat bs"
    by simp_all
  with Cons show ?case by simp
qed

lemma div85:
  "w div 7225 = w div 85 div 85" "w div 614125 = w div 85 div 85 div 85"
  "w div 52200625 = w div 85 div 85 div 85 div (85::nat)"
proof -
  show a: "w div 7225 = w div 85 div 85"
    using div_mult2_eq[of w 85 85] by simp
  show b: "w div 614125 = w div 85 div 85 div 85"
    using div_mult2_eq[of w 7225 85] a by simp
  show "w div 52200625 = w div 85 div 85 div 85 div 85"
    using div_mult2_eq[of w 614125 85] b by simp
qed

lemma mod7225: "x mod 7225 = 85 * (x div 85 mod 85) + x mod (85::nat)"
  using mod_mult2_eq[of x 85 85] by simp

lemma a85_chunk_digits: "w \<noteq> 0 \<Longrightarrow> a85_chunk w = digits5 w"
proof -
  have "w div 85 mod 7225 div 85 = w div 85 div 85 mod 85"
    by (simp add: mod7225)
  moreover have "w div 85 mod 7225 mod 85 = w div 85 mod 85"
    by (simp add: mod7225)
  ultimately show ?thesis if "w \<noteq> 0"
    using that by (simp add: a85_chunk_def a85chars2_def digits5_def div85)
qed

lemma digits5_value:
  "85 * (85 * (85 * (85 * (w div 52200625) + w div 614125 mod 85) + w div 7225 mod 85)
     + w div 85 mod 85) + w mod 85 = (w::nat)"
  by (simp add: div85)


lemma digits5_flat:
  "52200625 * (w div 52200625) + 614125 * (w div 614125 mod 85) + 7225 * (w div 7225 mod 85)
     + 85 * (w div 85 mod 85) + w mod 85 = (w::nat)"
  using digits5_value[of w] by simp

lemma digit_top: "w < 4294967296 \<Longrightarrow> w div 52200625 < (85::nat)"
  by (simp add: less_mult_imp_div_less)

lemma a85_loop_digits:
  assumes "w < 4294967296"
  shows "a85_loop (digits5 w @ rest) dec [] = a85_loop rest (dec @ rev (le_bytes 4 w)) []"
proof -
  have d: "w div 52200625 \<le> 84" using digit_top[OF assms] by simp
  have m: "x mod 85 \<le> 84" for x :: nat
    using mod_less_divisor[of 85 x] by linarith
  have w: "w \<le> 4294967295" using assms by simp
  show ?thesis
    using d w by (simp add: digits5_def Let_def m digits5_flat)
qed


lemma le_bytes_4:
  "le_bytes 4 x = [of_nat (x mod 256), of_nat (x div 256 mod 256),
                   of_nat (x div 65536 mod 256), of_nat (x div 16777216 mod 256)]"
proof -
  have "le_bytes (Suc (Suc (Suc (Suc 0)))) x
        = [of_nat (x mod 256), of_nat (x div 256 mod 256),
           of_nat (x div 256 div 256 mod 256), of_nat (x div 256 div 256 div 256 mod 256)]"
    by simp
  moreover have "x div 256 div 256 = x div 65536"
    using div_mult2_eq[of x 256 256] by simp
  moreover have "x div 256 div 256 div 256 = x div 16777216"
    using div_mult2_eq[of x 65536 256] div_mult2_eq[of x 256 256] by simp
  moreover have "(4::nat) = Suc (Suc (Suc (Suc 0)))" by simp
  ultimately show ?thesis by metis
qed

lemma a85_loop_z: "a85_loop (122 # rest) dec [] = a85_loop rest (dec @ rev (le_bytes 4 0)) []"
  by (simp add: le_bytes_4)

lemma a85_loop_chunk:
  assumes "w < 4294967296"
  shows "a85_loop (a85_chunk w @ rest) dec [] = a85_loop rest (dec @ rev (le_bytes 4 w)) []"
proof (cases "w = 0")
  case True
  have "a85_chunk 0 = [122]" by (simp add: a85_chunk_def)
  with True a85_loop_z[of rest dec] show ?thesis by simp
next
  case False
  then have "a85_chunk w = digits5 w" by (rule a85_chunk_digits)
  with a85_loop_digits[OF assms] show ?thesis by simp
qed

lemma a85_loop_chunks:
  "\<forall>w \<in> set ws. w < 4294967296 \<Longrightarrow>
   a85_loop (concat (map a85_chunk ws) @ rest) dec []
     = a85_loop rest (dec @ concat (map (\<lambda>w. rev (le_bytes 4 w)) ws)) []"
proof (induction ws arbitrary: dec)
  case Nil
  then show ?case by simp
next
  case (Cons w ws)
  then have w: "w < 4294967296" and ws: "\<forall>w \<in> set ws. w < 4294967296" by simp_all
  show ?case
    using a85_loop_chunk[OF w, of "concat (map a85_chunk ws) @ rest" dec] Cons.IH[OF ws]
    by simp
qed

lemma be_words_append:
  "length xs mod 4 = 0 \<Longrightarrow> be_words (xs @ ys) = be_words xs @ be_words ys"
proof (induction xs rule: be_words.induct)
  case (1 a b c d rest)
  then show ?case by simp
qed simp_all

lemma be_words_bound: "\<forall>w \<in> set (be_words bs). w < 4294967296"
proof (induction bs rule: be_words.induct)
  case (1 a b c d rest)
  have len: "length [d, c, b, a] = 4" by simp
  have "le_nat [d, c, b, a] < 256 ^ 4"
    using le_nat_bound[of "[d, c, b, a]"] unfolding len .
  with 1 show ?case by (simp del: le_nat.simps)
qed simp_all

lemma be_words_bytes:
  "length bs mod 4 = 0 \<Longrightarrow> concat (map (\<lambda>w. rev (le_bytes 4 w)) (be_words bs)) = bs"
proof (induction bs rule: be_words.induct)
  case (1 a b c d rest)
  have len: "length [d, c, b, a] = 4" by simp
  have "le_bytes 4 (le_nat [d, c, b, a]) = [d, c, b, a]"
    using le_bytes_le_nat[of "[d, c, b, a]"] unfolding len .
  then have r: "rev (le_bytes 4 (le_nat [d, c, b, a])) = [a, b, c, d]"
    by (simp only: rev.simps append.simps)
  from 1 have "length rest mod 4 = 0" by simp
  with 1 r show ?case by (simp del: le_nat.simps)
qed simp_all


lemma pad_arith:
  fixes k M E :: nat
  assumes "E \<le> M" "0 < E"
  shows "(E * (k * M div E) + (E - 1)) div M = k" "E * (k * M div E) + (E - 1) < (k + 1) * M"
proof -
  let ?w = "k * M"
  let ?acc = "E * (?w div E) + (E - 1)"
  have "E * (?w div E) + ?w mod E = ?w" by simp
  moreover have "?w mod E < E" using assms by simp
  ultimately have lo: "?w \<le> ?acc" and hi: "?acc < ?w + E" by linarith+
  from hi assms show b: "?acc < (k + 1) * M" by simp
  from lo b show "?acc div M = k"
    by (intro div_nat_eqI) (simp_all add: mult.commute)
qed

lemma div614125: "w div 614125 = 85 * (w div 52200625) + w div 614125 mod (85::nat)"
  using div_mult_mod_eq[of "w div 614125" 85] div_mult2_eq[of w 614125 85] by simp

lemma div7225: "w div 7225 = 85 * (w div 614125) + w div 7225 mod (85::nat)"
  using div_mult_mod_eq[of "w div 7225" 85] div_mult2_eq[of w 7225 85] by simp

lemma div85': "w div 85 = 85 * (w div 7225) + w div 85 mod (85::nat)"
  using div_mult_mod_eq[of "w div 85" 85] div_mult2_eq[of w 85 85] by simp

lemma a85_loop_u4: "a85_loop [117, 117, 117, 117] dec [] = Inr (dec, [117, 117, 117, 117])"
  by simp

lemma mod85_le: "x mod 85 \<le> (84::nat)"
  using mod_less_divisor[of 85 x] by linarith

lemma a85_loop_pad3:
  fixes a :: byte
  defines "w \<equiv> le_nat [0, 0, 0, a]"
  shows "\<exists>x y z. a85_loop (take 2 (digits5 w) @ [117, 117, 117, 117]) dec []
           = Inr (dec @ [a, x, y, z], [117])"
proof -
  define acc where "acc = 614124 + 614125 * (w div 614125)"
  have A: "unat a < 256" using unsigned_less[of a] by simp
  have w: "w = unat a * 16777216" by (simp add: w_def)
  have acc': "acc = 614125 * (unat a * 16777216 div 614125) + (614125 - 1)"
    unfolding acc_def w by simp
  have q: "acc div 16777216 = unat a"
    unfolding acc' by (rule pad_arith(1)) simp_all
  have b: "acc < (unat a + 1) * 16777216"
    unfolding acc' by (rule pad_arith(2)) simp_all
  from b A have le: "acc \<le> 4294967295" by simp
  have d: "w div 52200625 \<le> 84"
    using A digit_top[of w] by (simp add: w)
  have e: "52200625 * (w div 52200625) + 614125 * (w div 614125 mod 85) = 614125 * (w div 614125)"
    using div614125[of w] by simp
  have top: "(of_nat (acc div 16777216 mod 256) :: byte) = a"
    using A by (simp add: q)
  have "a85_loop (take 2 (digits5 w) @ [117, 117, 117, 117]) dec []
        = Inr (dec @ rev (le_bytes 4 acc), [117])"
    using d le unfolding acc_def by (simp add: digits5_def Let_def mod85_le e)
  then show ?thesis
    by (simp add: le_bytes_4 top)
qed

lemma a85_loop_pad2:
  fixes a b :: byte
  defines "w \<equiv> le_nat [0, 0, b, a]"
  shows "\<exists>x y. a85_loop (take 3 (digits5 w) @ [117, 117, 117, 117]) dec []
           = Inr (dec @ [a, b, x, y], [117, 117])"
proof -
  define acc where "acc = 7224 + 7225 * (w div 7225)"
  define k where "k = 256 * unat a + unat b"
  have A: "unat a < 256" and B: "unat b < 256"
    using unsigned_less[of a] unsigned_less[of b] by simp_all
  have w: "w = k * 65536" by (simp add: w_def k_def)
  have acc': "acc = 7225 * (k * 65536 div 7225) + (7225 - 1)"
    unfolding acc_def w by simp
  have q: "acc div 65536 = k"
    unfolding acc' by (rule pad_arith(1)) simp_all
  have b: "acc < (k + 1) * 65536"
    unfolding acc' by (rule pad_arith(2)) simp_all
  from A B have "k + 1 \<le> 65536" by (simp add: k_def)
  then have "(k + 1) * 65536 \<le> 65536 * 65536" by (rule mult_le_mono1)
  with b have le: "acc \<le> 4294967295" by simp
  have wb: "w < 4294967296" using A B by (simp add: w k_def)
  have d: "w div 52200625 \<le> 84"
    using digit_top[OF wb] by simp
  have e: "52200625 * (w div 52200625) + 614125 * (w div 614125 mod 85) + 7225 * (w div 7225 mod 85)
           = 7225 * (w div 7225)"
    using div614125[of w] div7225[of w] by simp
  have "acc div 16777216 = acc div 65536 div 256"
    using div_mult2_eq[of acc 65536 256] by simp
  then have top: "(of_nat (acc div 16777216 mod 256) :: byte) = a"
    using A B by (simp add: q k_def)
  have nxt: "(of_nat (acc div 65536 mod 256) :: byte) = b"
    using A B by (simp add: q k_def)
  have "a85_loop (take 3 (digits5 w) @ [117, 117, 117, 117]) dec []
        = Inr (dec @ rev (le_bytes 4 acc), [117, 117])"
    using d le unfolding acc_def by (simp add: digits5_def Let_def mod85_le e)
  then show ?thesis
    by (simp add: le_bytes_4 top nxt)
qed


lemma a85_loop_pad1:
  fixes a b c :: byte
  defines "w \<equiv> le_nat [0, c, b, a]"
  shows "\<exists>x. a85_loop (take 4 (digits5 w) @ [117, 117, 117, 117]) dec []
           = Inr (dec @ [a, b, c, x], [117, 117, 117])"
proof -
  define acc where "acc = 85 * (w div 85) + 84"
  define k where "k = 65536 * unat a + 256 * unat b + unat c"
  have A: "unat a < 256" and B: "unat b < 256" and C: "unat c < 256"
    using unsigned_less[of a] unsigned_less[of b] unsigned_less[of c] by simp_all
  have w: "w = k * 256" by (simp add: w_def k_def)
  have acc': "acc = 85 * (k * 256 div 85) + (85 - 1)"
    unfolding acc_def w by simp
  have q: "acc div 256 = k"
    unfolding acc' by (rule pad_arith(1)) simp_all
  have b: "acc < (k + 1) * 256"
    unfolding acc' by (rule pad_arith(2)) simp_all
  from A B C have "k + 1 \<le> 16777216" by (simp add: k_def)
  then have "(k + 1) * 256 \<le> 16777216 * 256" by (rule mult_le_mono1)
  with b have le: "acc \<le> 4294967295" by simp
  have wb: "w < 4294967296" using A B C by (simp add: w k_def)
  have d: "w div 52200625 \<le> 84"
    using digit_top[OF wb] by simp
  have e: "52200625 * (w div 52200625) + 614125 * (w div 614125 mod 85) + 7225 * (w div 7225 mod 85)
             + 85 * (w div 85 mod 85) = 85 * (w div 85)"
    using div614125[of w] div7225[of w] div85'[of w] by simp
  have d1: "acc div 65536 = k div 256"
    using div_mult2_eq[of acc 256 256] by (simp add: q)
  have d2: "acc div 16777216 = k div 65536"
    using div_mult2_eq[of acc 256 65536] div_mult2_eq[of k 256 256] by (simp add: q)
  have "k div 65536 = unat a"
    using A B C by (intro div_nat_eqI) (simp_all add: k_def)
  then have top: "(of_nat (acc div 16777216 mod 256) :: byte) = a"
    using A by (simp add: d2)
  have "k div 256 = 256 * unat a + unat b"
    using A B C by (intro div_nat_eqI) (simp_all add: k_def)
  then have nxt: "(of_nat (acc div 65536 mod 256) :: byte) = b"
    using A B by (simp add: d1)
  have "k = 256 * (256 * unat a + unat b) + unat c"
    by (simp add: k_def)
  moreover have "(256 * (256 * unat a + unat b) + unat c) mod 256 = unat c"
    using C by (simp only: mod_mult_self4 mod_less)
  ultimately have "k mod 256 = unat c" by simp
  then have thd: "(of_nat (acc div 256 mod 256) :: byte) = c"
    by (simp add: q)
  have "a85_loop (take 4 (digits5 w) @ [117, 117, 117, 117]) dec []
        = Inr (dec @ rev (le_bytes 4 acc), [117, 117, 117])"
    using d le unfolding acc_def by (simp add: digits5_def Let_def mod85_le e)
  then show ?thesis
    by (simp add: le_bytes_4 top nxt thd)
qed

lemma replicate_4: "replicate 4 x = [x, x, x, x]"
  by (simp add: numeral_eq_Suc)

lemma replicate_5: "replicate 5 x = [x, x, x, x, x]"
  by (simp add: numeral_eq_Suc)

lemma a85_chunk_last: "(if a85_chunk w = [122] then replicate 5 33 else a85_chunk w) = digits5 w"
proof (cases "w = 0")
  case True
  then show ?thesis by (simp add: a85_chunk_def digits5_def replicate_5)
next
  case False
  then have "a85_chunk w = digits5 w" by (rule a85_chunk_digits)
  then show ?thesis by (simp add: digits5_def)
qed

lemma length_digits5: "length (digits5 w) = 5"
  by (simp add: digits5_def)

lemma a85encode_aligned:
  assumes "length bs mod 4 = 0"
  shows "a85encode bs = concat (map a85_chunk (be_words bs))"
  using assms by (simp add: a85encode_def)

lemma length4_cases: "length xs = 4 \<Longrightarrow> \<exists>a b c d. xs = [a, b, c, d]"
  by (auto simp: numeral_eq_Suc length_Suc_conv)

lemma a85encode_tail:
  assumes "length bs0 mod 4 = 0" "0 < length t" "length t < 4"
  shows "a85encode (bs0 @ t)
         = concat (map a85_chunk (be_words bs0))
           @ take (5 - (4 - length t)) (digits5 (hd (be_words (t @ replicate (4 - length t) 0))))"
proof -
  let ?p = "4 - length t"
  let ?tz = "t @ replicate ?p 0"
  have ltz: "length ?tz = 4" using assms by simp
  then obtain a b c d where tz: "?tz = [a, b, c, d]"
    using length4_cases by blast
  have bw: "be_words ?tz = [le_nat [d, c, b, a]]" by (simp only: tz be_words.simps)
  have lm: "length (bs0 @ t) mod 4 = length t"
    using assms by (simp add: mod_add_left_eq[symmetric, of "length bs0"])
  have pad: "(4 - length (bs0 @ t) mod 4) mod 4 = ?p"
    unfolding lm using assms by simp
  have words: "be_words ((bs0 @ t) @ replicate ?p 0) = be_words bs0 @ [le_nat [d, c, b, a]]"
    using be_words_append[OF assms(1), of ?tz] bw by simp
  have p0: "?p \<noteq> 0" using assms by simp
  have chunks: "map a85_chunk (be_words bs0 @ [le_nat [d, c, b, a]])
                = map a85_chunk (be_words bs0) @ [a85_chunk (le_nat [d, c, b, a])]"
    by simp
  show ?thesis
    unfolding a85encode_def Let_def pad words bw chunks last_snoc butlast_snoc
      a85_chunk_last length_digits5
    using p0 by (simp del: le_nat.simps)
qed


lemma split_tail:
  obtains bs0 t :: "'a list" where "bs = bs0 @ t" "length bs0 mod 4 = 0" "length t < 4"
proof
  let ?n = "length bs - length bs mod 4"
  show "bs = take ?n bs @ drop ?n bs" by simp
  have "length (take ?n bs) = ?n" by simp
  then show "length (take ?n bs) mod 4 = 0"
    by (simp add: minus_mod_eq_mult_div)
  show "length (drop ?n bs) < 4" by simp
qed

lemma short_list_cases:
  assumes "length (t :: 'a list) < 4"
  obtains "t = []" | a where "t = [a]" | a b where "t = [a, b]" | a b c where "t = [a, b, c]"
proof -
  from assms have "length t = 0 \<or> length t = 1 \<or> length t = 2 \<or> length t = 3" by linarith
  then show ?thesis
    using that by (auto simp: numeral_eq_Suc length_Suc_conv)
qed

lemma a85_loop_full:
  assumes "length bs0 mod 4 = 0"
  shows "a85_loop (concat (map a85_chunk (be_words bs0)) @ rest) [] [] = a85_loop rest bs0 []"
  using a85_loop_chunks[OF be_words_bound, of bs0 rest "[]"] be_words_bytes[OF assms] by simp

lemma a85_loop_encode:
  "\<exists>junk cur. a85_loop (a85encode bs @ [117, 117, 117, 117]) [] [] = Inr (bs @ junk, cur)
              \<and> length junk + length cur = 4"
proof -
  obtain bs0 t where bs: "bs = bs0 @ t" and al: "length bs0 mod 4 = 0" and t: "length t < 4"
    by (rule split_tail)
  from t show ?thesis
  proof (cases rule: short_list_cases)
    case 1
    with bs al have "a85encode bs = concat (map a85_chunk (be_words bs0))"
      by (simp add: a85encode_aligned)
    then have "a85_loop (a85encode bs @ [117, 117, 117, 117]) [] [] = Inr (bs @ [], [117, 117, 117, 117])"
      using a85_loop_full[OF al, of "[117, 117, 117, 117]"] a85_loop_u4[of bs0] 1 bs by simp
    moreover have "length ([] :: byte list) + length [117::nat, 117, 117, 117] = 4" by simp
    ultimately show ?thesis by blast
  next
    case (2 a)
    have "hd (be_words ([a] @ replicate (4 - length [a]) 0)) = le_nat [0, 0, 0, a]"
      by (simp add: numeral_eq_Suc del: le_nat.simps)
    with a85encode_tail[OF al, of "[a]"]
    have e: "a85encode (bs0 @ [a]) = concat (map a85_chunk (be_words bs0)) @ take 2 (digits5 (le_nat [0, 0, 0, a]))"
      by (simp del: le_nat.simps)
    obtain x y z where "a85_loop (take 2 (digits5 (le_nat [0, 0, 0, a])) @ [117, 117, 117, 117]) bs0 []
           = Inr (bs0 @ [a, x, y, z], [117])"
      using a85_loop_pad3[of a bs0] by blast
    then have "a85_loop (a85encode bs @ [117, 117, 117, 117]) [] [] = Inr (bs @ [x, y, z], [117])"
      using a85_loop_full[OF al, of "take 2 (digits5 (le_nat [0, 0, 0, a])) @ [117, 117, 117, 117]"]
      unfolding bs 2 e by (simp del: le_nat.simps)
    moreover have "length [x, y, z] + length [117::nat] = 4" by simp
    ultimately show ?thesis by blast
  next
    case (3 a b)
    have "hd (be_words ([a, b] @ replicate (4 - length [a, b]) 0)) = le_nat [0, 0, b, a]"
      by (simp add: numeral_eq_Suc del: le_nat.simps)
    with a85encode_tail[OF al, of "[a, b]"]
    have e: "a85encode (bs0 @ [a, b]) = concat (map a85_chunk (be_words bs0)) @ take 3 (digits5 (le_nat [0, 0, b, a]))"
      by (simp del: le_nat.simps)
    obtain x y where "a85_loop (take 3 (digits5 (le_nat [0, 0, b, a])) @ [117, 117, 117, 117]) bs0 []
           = Inr (bs0 @ [a, b, x, y], [117, 117])"
      using a85_loop_pad2[of b a bs0] by blast
    then have "a85_loop (a85encode bs @ [117, 117, 117, 117]) [] [] = Inr (bs @ [x, y], [117, 117])"
      using a85_loop_full[OF al, of "take 3 (digits5 (le_nat [0, 0, b, a])) @ [117, 117, 117, 117]"]
      unfolding bs 3 e by (simp del: le_nat.simps)
    moreover have "length [x, y] + length [117::nat, 117] = 4" by simp
    ultimately show ?thesis by blast
  next
    case (4 a b c)
    have "hd (be_words ([a, b, c] @ replicate (4 - length [a, b, c]) 0)) = le_nat [0, c, b, a]"
      by (simp add: numeral_eq_Suc del: le_nat.simps)
    with a85encode_tail[OF al, of "[a, b, c]"]
    have e: "a85encode (bs0 @ [a, b, c]) = concat (map a85_chunk (be_words bs0)) @ take 4 (digits5 (le_nat [0, c, b, a]))"
      by (simp del: le_nat.simps)
    obtain x where "a85_loop (take 4 (digits5 (le_nat [0, c, b, a])) @ [117, 117, 117, 117]) bs0 []
           = Inr (bs0 @ [a, b, c, x], [117, 117, 117])"
      using a85_loop_pad1[of c b a bs0] by blast
    then have "a85_loop (a85encode bs @ [117, 117, 117, 117]) [] [] = Inr (bs @ [x], [117, 117, 117])"
      using a85_loop_full[OF al, of "take 4 (digits5 (le_nat [0, c, b, a])) @ [117, 117, 117, 117]"]
      unfolding bs 4 e by (simp del: le_nat.simps)
    moreover have "length [x] + length [117::nat, 117, 117] = 4" by simp
    ultimately show ?thesis by blast
  qed
qed


lemma digits5_symbols: "w < 4294967296 \<Longrightarrow> x \<in> set (digits5 w) \<Longrightarrow> x < 128"
  using digit_top[of w] mod85_le[of "w div 614125"] mod85_le[of "w div 7225"]
    mod85_le[of "w div 85"] mod85_le[of w]
  by (auto simp: digits5_def)

lemma a85_chunk_symbols: "w < 4294967296 \<Longrightarrow> x \<in> set (a85_chunk w) \<Longrightarrow> x < 128"
  by (cases "w = 0") (auto simp: a85_chunk_digits dest: digits5_symbols, simp add: a85_chunk_def)

lemma a85encode_symbols:
  assumes "x \<in> set (a85encode bs)"
  shows "x < 128"
proof -
  obtain bs0 t where bs: "bs = bs0 @ t" and al: "length bs0 mod 4 = 0" and t: "length t < 4"
    by (rule split_tail)
  have full: "y < 128" if "y \<in> set (concat (map a85_chunk (be_words bs0)))" for y
    using that be_words_bound[of bs0] by (auto dest: a85_chunk_symbols)
  show ?thesis
  proof (cases "t = []")
    case True
    with assms bs al full show ?thesis by (simp add: a85encode_aligned)
  next
    case False
    let ?tz = "t @ replicate (4 - length t) 0"
    have "length ?tz = 4" using t by simp
    then obtain a b c d where tz: "?tz = [a, b, c, d]"
      using length4_cases by blast
    have "hd (be_words ?tz) \<in> set (be_words ?tz)"
      unfolding tz by (simp del: le_nat.simps)
    then have W: "hd (be_words ?tz) < 4294967296"
      using be_words_bound[of ?tz] by blast
    from False have "0 < length t" by simp
    from a85encode_tail[OF al this t] assms bs
    have "x \<in> set (concat (map a85_chunk (be_words bs0)))
          \<or> x \<in> set (take (5 - (4 - length t)) (digits5 (hd (be_words ?tz))))"
      by simp
    then show ?thesis
      using full digits5_symbols[OF W] by (auto dest: in_set_takeD)
  qed
qed

lemma of_char_decode_ascii:
  "\<forall>x \<in> set xs. x < 128 \<Longrightarrow> map of_char (decode_ascii xs) = xs"
  by (induction xs) (simp_all add: decode_ascii_def)

lemma ascii_decode_ascii:
  "\<forall>x \<in> set xs. x < 128 \<Longrightarrow> \<not> (\<exists>c \<in> set (decode_ascii xs). (128::nat) \<le> of_char c)"
  by (induction xs) (simp_all add: decode_ascii_def)

lemma a85_roundtrip: "a85decode (decode_ascii (a85encode bs)) = Inr bs"
proof -
  have sym: "\<forall>x \<in> set (a85encode bs). x < 128"
    using a85encode_symbols by blast
  obtain junk cur where
    l: "a85_loop (a85encode bs @ [117, 117, 117, 117]) [] [] = Inr (bs @ junk, cur)"
    and n: "length junk + length cur = 4"
    using a85_loop_encode[of bs] by blast
  have fin: "(let padding = 4 - length cur
              in Inr (if padding \<noteq> 0 then take (length (bs @ junk) - padding) (bs @ junk)
                      else bs @ junk)) = (Inr bs :: error + byte list)"
  proof (cases "length cur = 4")
    case True
    with n have "junk = []" by simp
    with True show ?thesis by simp
  next
    case False
    with n have "4 - length cur = length junk" "length junk \<noteq> 0" by linarith+
    then show ?thesis by (simp add: Let_def)
  qed
  have asc: "(\<exists>c \<in> set (decode_ascii (a85encode bs)). (128::nat) \<le> of_char c) = False"
    using ascii_decode_ascii[OF sym] by simp
  show ?thesis
    unfolding a85decode_def of_char_decode_ascii[OF sym] replicate_4 l asc
    by (simp only: if_False sum.case prod.case fin)
qed

section \<open>The note codec\<close>

lemma pack_B_ok: "0 \<le> x \<Longrightarrow> x \<le> 255 \<Longrightarrow> pack_B x = Inr [of_int x]"
proof -
  assume x: "0 \<le> x" "x \<le> 255"
  then have "nat x mod 256 = nat x" by simp
  moreover have "(of_nat (nat x) :: byte) = of_int x"
    using x by simp
  ultimately show ?thesis
    using x by (simp add: pack_B_def)
qed

lemma and_0x7f_range: "0 \<le> (c::int) AND 0x7f" "(c::int) AND 0x7f \<le> 255"
  using pos_mod_bound[of 128 c] by (simp_all add: and_0x7f_int)

lemma or_0x80_range:
  assumes "0 \<le> (c::int)" "c \<le> 255"
  shows "0 \<le> c OR 0x80" "c OR 0x80 \<le> 255"
proof -
  show "0 \<le> c OR 0x80" using assms by simp
  have "c OR 128 < 2 ^ 8"
    by (rule OR_upper) (use assms in simp_all)
  then show "c OR 0x80 \<le> 255" by simp
qed

lemma pack_note_bytes:
  assumes "encodable n"
  shows "pack_note n data = Some (Inr (data @ note_bytes n))"
proof (cases "is_step n")
  case True
  have "pack_B (column n AND 0x7f) = Inr [of_int (column n AND 0x7f)]"
    by (rule pack_B_ok) (rule and_0x7f_range)+
  moreover have "pack_vlc (start n) = Some (varint (nat (start n)))"
    using assms by (simp add: encodable_def pack_vlc_varint)
  ultimately show ?thesis
    using True by (simp add: pack_note_def note_bytes_def)
next
  case False
  with assms have r: "0 \<le> start n" "0 \<le> end' n" "0 \<le> column n" "column n \<le> 255"
    "0 \<le> special n" "special n \<le> 255"
    by (auto simp: encodable_def)
  have "pack_B (column n OR 0x80) = Inr [of_int (column n OR 0x80)]"
    by (rule pack_B_ok) (rule or_0x80_range[OF r(3,4)])+
  moreover have "pack_vlc (start n) = Some (varint (nat (start n)))"
    "pack_vlc (end' n) = Some (varint (nat (end' n)))"
    using r by (simp_all add: pack_vlc_varint)
  moreover have "pack_B (special n) = Inr [of_int (special n)]"
    using r by (simp add: pack_B_ok)
  ultimately show ?thesis
    using False by (simp add: pack_note_def note_bytes_def)
qed

lemma pack_notes_bytes:
  "\<forall>n \<in> set ns. encodable n \<Longrightarrow>
   pack_notes ns data = Some (Inr (data @ concat (map note_bytes ns)))"
  by (induction ns arbitrary: data) (simp_all add: pack_note_bytes)

lemma notes_payload_bytes:
  assumes "\<forall>n \<in> set ns. encodable n"
  shows "notes_payload ns = Some (Inr (0 # varint (length ns) @ concat (map note_bytes ns)))"
proof -
  have "pack_B 0 = Inr [0]" using pack_B_ok[of 0] by simp
  moreover have "pack_vlc (int (length ns)) = Some (varint (length ns))"
    using pack_vlc_varint[of "int (length ns)"] by simp
  ultimately show ?thesis
    using pack_notes_bytes[OF assms] by (simp add: notes_payload_def)
qed


lemma uint_byte_of_int: "0 \<le> x \<Longrightarrow> x \<le> 255 \<Longrightarrow> uint (of_int x :: byte) = x"
  by (simp add: uint_word_of_int take_bit_eq_mod)

lemma low7_idem: "((c::int) AND 0x7f) AND 0x7f = c AND 0x7f"
  by (simp add: and.assoc)

lemma low7_no_flag: "((c::int) AND 0x7f) AND 0x80 = 0"
proof -
  have "(c AND 0x7f) AND 0x80 = c AND (0x7f AND 0x80)" by (simp only: and.assoc)
  then show ?thesis by simp
qed

lemma or_flag_low7: "((c::int) OR 0x80) AND 0x7f = c AND 0x7f"
  by (simp add: bit.conj_disj_distrib2)

lemma or_flag_set: "((c::int) OR 0x80) AND 0x80 \<noteq> 0"
proof -
  have "bit (c OR 2 ^ 7) 7" by (simp add: bit_simps)
  then have "(c OR 2 ^ 7) AND 2 ^ 7 \<noteq> 0"
    by (simp only: and_exp_eq_0_iff_not_bit not_not)
  then show ?thesis by simp
qed

lemma read_note_once:
  assumes "encodable n"
  shows "read_notes (Suc k) (pre @ note_bytes n @ post) (length pre) acc
         = read_notes k (pre @ note_bytes n @ post) (length pre + length (note_bytes n))
             (acc @ [decoded n])"
proof (cases "is_step n")
  case True
  let ?c = "of_int (column n AND 0x7f) :: byte"
  let ?s = "varint (nat (start n))"
  have nb: "note_bytes n = ?c # ?s" using True by (simp add: note_bytes_def)
  have s: "0 \<le> start n" using assms by (simp add: encodable_def)
  have c: "uint ?c = column n AND 0x7f"
    by (rule uint_byte_of_int) (rule and_0x7f_range)+
  have u1: "unpack_B (pre @ ?c # (?s @ post)) (length pre) = Inr (uint ?c, length pre + 1)"
    by (rule unpack_B_at)
  have u2: "unpack_vlc ((pre @ [?c]) @ ?s @ post) (length (pre @ [?c]))
            = Inr (int (nat (start n)), length (pre @ [?c]) + length ?s)"
    by (rule unpack_vlc_varint)
  show ?thesis
    using True s u1 u2
    by (simp add: nb c low7_idem low7_no_flag decoded_def)
next
  case False
  let ?c = "of_int (column n OR 0x80) :: byte"
  let ?s = "varint (nat (start n))"
  let ?e = "varint (nat (end' n))"
  let ?sp = "of_int (special n) :: byte"
  from False assms have r: "0 \<le> start n" "0 \<le> end' n" "0 \<le> column n" "column n \<le> 255"
    "0 \<le> special n" "special n \<le> 255"
    by (auto simp: encodable_def)
  have nb: "note_bytes n = ?c # ?s @ ?e @ [?sp]" using False by (simp add: note_bytes_def)
  have c: "uint ?c = column n OR 0x80"
    by (rule uint_byte_of_int) (rule or_0x80_range[OF r(3,4)])+
  have sp: "uint ?sp = special n"
    using r by (simp add: uint_byte_of_int)
  have u1: "unpack_B (pre @ ?c # (?s @ ?e @ [?sp] @ post)) (length pre) = Inr (uint ?c, length pre + 1)"
    by (rule unpack_B_at)
  have u2: "unpack_vlc ((pre @ [?c]) @ ?s @ (?e @ [?sp] @ post)) (length (pre @ [?c]))
            = Inr (int (nat (start n)), length (pre @ [?c]) + length ?s)"
    by (rule unpack_vlc_varint)
  have l3: "length (pre @ [?c] @ ?s) = length pre + 1 + length ?s" by simp
  have u3: "unpack_vlc (pre @ ?c # ?s @ ?e @ ?sp # post) (length pre + 1 + length ?s)
            = Inr (end' n, length pre + 1 + length ?s + length ?e)"
    using unpack_vlc_varint[of "pre @ [?c] @ ?s" "nat (end' n)" "[?sp] @ post"] r
    unfolding l3 by simp
  have l4: "length (pre @ [?c] @ ?s @ ?e) = length pre + 1 + length ?s + length ?e" by simp
  have u4: "unpack_B (pre @ ?c # ?s @ ?e @ ?sp # post) (length pre + 1 + length ?s + length ?e)
            = Inr (special n, length pre + 1 + length ?s + length ?e + 1)"
    using unpack_B_at[of "pre @ [?c] @ ?s @ ?e" ?sp post] sp
    unfolding l4 by simp
  show ?thesis
    using False r u1 u2 u3 u4
    by (simp add: nb c sp or_flag_low7 or_flag_set decoded_def) (simp add: add.assoc)
qed

lemma read_notes_bytes:
  "\<forall>n \<in> set ns. encodable n \<Longrightarrow>
   read_notes (length ns) (pre @ concat (map note_bytes ns) @ post) (length pre) acc
     = Inr (acc @ map decoded ns, length pre + length (concat (map note_bytes ns)))"
proof (induction ns arbitrary: pre acc)
  case Nil
  then show ?case by simp
next
  case (Cons n ns)
  then have n: "encodable n" and ns: "\<forall>n \<in> set ns. encodable n" by simp_all
  have "read_notes (Suc (length ns)) (pre @ note_bytes n @ (concat (map note_bytes ns) @ post)) (length pre) acc
        = read_notes (length ns) (pre @ note_bytes n @ (concat (map note_bytes ns) @ post))
            (length pre + length (note_bytes n)) (acc @ [decoded n])"
    using n by (rule read_note_once)
  moreover have "read_notes (length ns) ((pre @ note_bytes n) @ concat (map note_bytes ns) @ post)
          (length (pre @ note_bytes n)) (acc @ [decoded n])
        = Inr ((acc @ [decoded n]) @ map decoded ns,
               length (pre @ note_bytes n) + length (concat (map note_bytes ns)))"
    using ns by (rule Cons.IH)
  ultimately show ?case by simp
qed

lemma read_notes_payload_bytes:
  assumes "\<forall>n \<in> set ns. encodable n"
  shows "read_notes_payload (0 # varint (length ns) @ concat (map note_bytes ns) @ post)
         = Inr (map decoded ns, 1 + length (varint (length ns)) + length (concat (map note_bytes ns)))"
proof -
  let ?v = "varint (length ns)"
  let ?r = "concat (map note_bytes ns)"
  have u1: "unpack_B ([] @ 0 # (?v @ ?r @ post)) (length ([] :: byte list)) = Inr (uint (0 :: byte), length ([] :: byte list) + 1)"
    by (rule unpack_B_at)
  have u2: "unpack_vlc ([0] @ ?v @ (?r @ post)) (length [0 :: byte])
            = Inr (int (length ns), length [0 :: byte] + length ?v)"
    by (rule unpack_vlc_varint)
  have u3: "read_notes (length ns) (([0] @ ?v) @ ?r @ post) (length ([0] @ ?v)) []
            = Inr ([] @ map decoded ns, length ([0] @ ?v) + length ?r)"
    using assms by (rule read_notes_bytes)
  show ?thesis
    using u1 u2 u3 by (simp add: read_notes_payload_def)
qed

section \<open>Round trip of notes\<close>

lemmas a85_eval = a85encode_def a85_chunk_def a85chars2_def decode_ascii_def char_of_eq_iff

lemma notes_text:
  assumes "\<forall>n \<in> set ns. encodable n"
  shows "notes_to_clipboard_data ns
         = Some (Inr (NOTES_MAGIC @ decode_ascii (a85encode (0 # varint (length ns) @ concat (map note_bytes ns)))))"
  using notes_payload_bytes[OF assms] by (simp add: notes_to_clipboard_data_def)

lemma notes_text_decoded:
  assumes "\<forall>n \<in> set ns. encodable n"
  shows "clipboard_data_to_notes
           (NOTES_MAGIC @ decode_ascii (a85encode (0 # varint (length ns) @ concat (map note_bytes ns))))
         = Inr (map decoded ns)"
  using read_notes_payload_bytes[OF assms, of "[]"]
  by (simp add: clipboard_data_to_notes_def a85_roundtrip)

lemma note_eq_iff:
  "(m :: Note) = n \<longleftrightarrow> start m = start n \<and> end' m = end' n \<and> column m = column n \<and> special m = special n"
  by (cases m, cases n) auto

lemma low7_id: "0 \<le> (c::int) \<Longrightarrow> c \<le> 127 \<Longrightarrow> c AND 0x7f = c"
  by (simp add: and_0x7f_int)

lemma faithful_encodable: "faithful n \<Longrightarrow> encodable n"
  by (auto simp: faithful_def encodable_def is_step_def)

lemma faithful_decoded: "faithful n \<Longrightarrow> decoded n = n"
  by (auto simp: faithful_def decoded_def is_step_def Note_def note_eq_iff low7_id)


lemma doctest_notes_text:
  "decode_ascii (a85encode [0, 3, 0, 0, 131, 0, 24, 0, 129, 12, 24, 2]) = ''!!<3$K)c_gJIE@s''"
  by (simp add: a85_eval)

lemma varint_small: "n < 128 \<Longrightarrow> varint n = [of_nat n]"
  by (subst varint.simps) simp

lemma doctest_notes_bytes:
  "0 # varint (length [make_step 0 0, make_hold 0 24 3, make_roll 12 24 1])
     @ concat (map note_bytes [make_step 0 0, make_hold 0 24 3, make_roll 12 24 1])
   = [0, 3, 0, 0, 131, 0, 24, 0, 129, 12, 24, 2]"
  by (simp add: note_bytes_def is_step_def make_step_def make_hold_def make_roll_def Note_def
      varint_small)

text \<open>
  Claim C1, as amended. For every list of notes whose ticks are not negative, whose
  columns lie between 0 and 127 and each of which is either a plain step
  (\<open>special = -1\<close>, \<open>start = end\<close>) or has a tag between 0 and 255 and is not a
  point-like note with tag 0, the encoder returns a text and the decoder returns from it
  the same list: same length, same order, every field unchanged.
\<close>

theorem notes_roundtrip:
  assumes "\<forall>n \<in> set ns. faithful n"
  shows "\<exists>text. notes_to_clipboard_data ns = Some (Inr text)
                \<and> clipboard_data_to_notes text = Inr ns"
proof -
  from assms have e: "\<forall>n \<in> set ns. encodable n"
    by (blast intro: faithful_encodable)
  from assms have "map decoded ns = ns"
    by (induction ns) (simp_all add: faithful_decoded)
  with notes_text[OF e] notes_text_decoded[OF e] show ?thesis by simp
qed

theorem notes_roundtrip_witness:
  "faithful (make_step 0 0) \<and> faithful (make_hold 0 24 3) \<and> faithful (make_roll 12 24 1)
   \<and> notes_to_clipboard_data [make_step 0 0, make_hold 0 24 3, make_roll 12 24 1]
       = Some (Inr ''ArrowVortex:notes:!!<3$K)c_gJIE@s'')
   \<and> clipboard_data_to_notes ''ArrowVortex:notes:!!<3$K)c_gJIE@s''
       = Inr [make_step 0 0, make_hold 0 24 3, make_roll 12 24 1]"
proof -
  let ?ns = "[make_step 0 0, make_hold 0 24 3, make_roll 12 24 1]"
  have f: "faithful (make_step 0 0)" "faithful (make_hold 0 24 3)" "faithful (make_roll 12 24 1)"
    by (simp_all add: faithful_def make_step_def make_hold_def make_roll_def Note_def)
  then have a: "\<forall>n \<in> set ?ns. faithful n" by simp
  then have "\<forall>n \<in> set ?ns. encodable n" by (blast intro: faithful_encodable)
  from notes_text[OF this]
  have t: "notes_to_clipboard_data ?ns = Some (Inr ''ArrowVortex:notes:!!<3$K)c_gJIE@s'')"
    unfolding doctest_notes_bytes doctest_notes_text by (simp add: NOTES_MAGIC_def)
  from notes_roundtrip[OF a] t
  have "clipboard_data_to_notes ''ArrowVortex:notes:!!<3$K)c_gJIE@s'' = Inr ?ns"
    by auto
  with f t show ?thesis by simp
qed

text \<open>
  The claim as stated fails: a hold of length zero, \<open>make_hold 5 5 1\<close>, is a step for
  \<open>is_step\<close> (\<open>special \<le> 0\<close>), goes out in the short form and comes back with
  \<open>special = -1\<close>.
\<close>

theorem notes_roundtrip_counterexample:
  "notes_to_clipboard_data [make_hold 5 5 1] = Some (Inr ''ArrowVortex:notes:!!**('')
   \<and> clipboard_data_to_notes ''ArrowVortex:notes:!!**('' = Inr [make_step 5 1]
   \<and> make_step 5 1 \<noteq> make_hold 5 5 1"
proof -
  let ?ns = "[make_hold 5 5 1]"
  have e: "\<forall>n \<in> set ?ns. encodable n"
    by (simp add: encodable_def is_step_def make_hold_def Note_def)
  have b: "0 # varint (length ?ns) @ concat (map note_bytes ?ns) = [0, 1, 1, 5]"
    by (simp add: note_bytes_def is_step_def make_hold_def Note_def varint_small)
  have x: "decode_ascii (a85encode [0, 1, 1, 5]) = ''!!**(''"
    by (simp add: a85_eval)
  have d: "map decoded ?ns = [make_step 5 1]"
    by (simp add: decoded_def is_step_def make_hold_def make_step_def Note_def)
  have 1: "notes_to_clipboard_data ?ns = Some (Inr ''ArrowVortex:notes:!!**('')"
    using notes_text[OF e] unfolding b x by (simp add: NOTES_MAGIC_def)
  have 2: "clipboard_data_to_notes ''ArrowVortex:notes:!!**('' = Inr [make_step 5 1]"
    using notes_text_decoded[OF e] unfolding b x d by (simp add: NOTES_MAGIC_def)
  have 3: "make_step 5 1 \<noteq> make_hold 5 5 1"
    by (simp add: make_step_def make_hold_def Note_def)
  from 1 2 3 show ?thesis by simp
qed

section \<open>The forms of a note record\<close>

lemma emittable_encodable: "emittable n \<Longrightarrow> encodable n"
  by (auto simp: emittable_def encodable_def is_step_def)

lemma emittable_record: "emittable n \<Longrightarrow> note_bytes n = note_record n"
  by (auto simp: emittable_def note_bytes_def note_record_def is_step_def low7_id)

lemma note_record_flag:
  assumes "emittable n"
  shows "(uint (hd (note_record n)) AND 0x80 = 0) = (special n \<le> 0 \<and> start n = end' n)"
proof (cases "special n \<le> 0 \<and> start n = end' n")
  case True
  from assms have c: "0 \<le> column n" "column n \<le> 127" by (simp_all add: emittable_def)
  then have "uint (of_int (column n) :: byte) = column n"
    by (simp add: uint_byte_of_int)
  moreover have "(column n AND 0x80 = 0) = (column n < 128)"
    using c by (intro and_0x80_int) simp_all
  ultimately show ?thesis
    using True c by (simp add: note_record_def)
next
  case False
  from assms have c: "0 \<le> column n" "column n \<le> 255" by (simp_all add: emittable_def)
  from False have "hd (note_record n) = of_int (column n OR 0x80)"
    by (auto simp: note_record_def)
  moreover have "uint (of_int (column n OR 0x80) :: byte) = column n OR 0x80"
    by (rule uint_byte_of_int) (rule or_0x80_range[OF c])+
  ultimately have "uint (hd (note_record n)) AND 0x80 \<noteq> 0"
    using or_flag_set[of "column n"] by simp
  with False show ?thesis by blast
qed

text \<open>
  Claim C3, as amended. The encoder writes the short form (one control byte holding the
  column with bit 7 clear, then the variable-length \<open>start\<close>) for exactly the notes
  with \<open>special \<le> 0\<close> and \<open>start = end\<close>, which is what \<open>is_step\<close> tests; every
  other note goes out in the long form: the control byte \<open>column OR 0x80\<close>, the
  variable-length \<open>start\<close> and \<open>end\<close>, and one byte holding \<open>special\<close>. The
  payload is the header byte 0, the count and the records in the order of the list.
\<close>

theorem note_forms:
  assumes "\<forall>n \<in> set ns. emittable n"
  shows "notes_payload ns = Some (Inr (0 # varint (length ns) @ concat (map note_record ns)))
       \<and> notes_to_clipboard_data ns
           = Some (Inr (NOTES_MAGIC
                @ decode_ascii (a85encode (0 # varint (length ns) @ concat (map note_record ns)))))
       \<and> (\<forall>n \<in> set ns.
             (uint (hd (note_record n)) AND 0x80 = 0) = (special n \<le> 0 \<and> start n = end' n))"
proof -
  from assms have e: "\<forall>n \<in> set ns. encodable n"
    by (blast intro: emittable_encodable)
  from assms have r: "map note_bytes ns = map note_record ns"
    by (simp add: emittable_record)
  show ?thesis
    using notes_payload_bytes[OF e] notes_text[OF e] assms
    unfolding r by (simp add: note_record_flag)
qed

theorem note_forms_witness:
  "emittable (make_step 0 0) \<and> emittable (make_hold 0 24 3) \<and> emittable (make_roll 12 24 1)
   \<and> notes_payload [make_step 0 0, make_hold 0 24 3, make_roll 12 24 1]
       = Some (Inr [0, 3, 0, 0, 131, 0, 24, 0, 129, 12, 24, 2])
   \<and> uint (hd (note_record (make_step 0 0))) AND 0x80 = 0
   \<and> uint (hd (note_record (make_hold 0 24 3))) AND 0x80 \<noteq> 0"
proof -
  let ?ns = "[make_step 0 0, make_hold 0 24 3, make_roll 12 24 1]"
  have f: "emittable (make_step 0 0)" "emittable (make_hold 0 24 3)" "emittable (make_roll 12 24 1)"
    by (simp_all add: emittable_def make_step_def make_hold_def make_roll_def Note_def)
  then have a: "\<forall>n \<in> set ?ns. emittable n" by simp
  have b: "0 # varint (length ?ns) @ concat (map note_record ?ns)
           = [0, 3, 0, 0, 131, 0, 24, 0, 129, 12, 24, 2]"
    by (simp add: note_record_def make_step_def make_hold_def make_roll_def Note_def varint_small)
  have s: "special (make_step 0 0) \<le> 0 \<and> start (make_step 0 0) = end' (make_step 0 0)"
    "\<not> (special (make_hold 0 24 3) \<le> 0 \<and> start (make_hold 0 24 3) = end' (make_hold 0 24 3))"
    by (simp_all add: make_step_def make_hold_def Note_def)
  from note_forms[OF a] f s show ?thesis
    unfolding b by simp
qed

text \<open>
  The claim as stated fails: \<open>make_hold 5 5 1\<close> has \<open>special = 0\<close>, not \<open>-1\<close>, and
  is written in the short form, as the control byte 1 and the tick 5.
\<close>

theorem note_forms_counterexample:
  "notes_payload [make_hold 5 5 1] = Some (Inr [0, 1, 1, 5])
   \<and> special (make_hold 5 5 1) = 0 \<and> start (make_hold 5 5 1) = end' (make_hold 5 5 1)"
proof -
  let ?ns = "[make_hold 5 5 1]"
  have e: "\<forall>n \<in> set ?ns. encodable n"
    by (simp add: encodable_def is_step_def make_hold_def Note_def)
  have b: "0 # varint (length ?ns) @ concat (map note_bytes ?ns) = [0, 1, 1, 5]"
    by (simp add: note_bytes_def is_step_def make_hold_def Note_def varint_small)
  show ?thesis
    using notes_payload_bytes[OF e] unfolding b by (simp add: make_hold_def Note_def)
qed

text \<open>
  Claim C10, as amended. A plain step (\<open>special = -1\<close>, \<open>start = end\<close>) whose tick is not
  negative and whose column is 128 or more is encoded without an error: the control byte
  is the column masked to its low seven bits, and the note comes back with its column
  reduced modulo 128, which is not the column it had. The notes around it come back
  unchanged.
\<close>

theorem step_column_masked:
  assumes "special n = - 1" "start n = end' n" "0 \<le> start n" "128 \<le> column n"
    and "\<forall>m \<in> set pre \<union> set post. faithful m"
  shows "\<exists>text. notes_to_clipboard_data (pre @ n # post) = Some (Inr text)
           \<and> clipboard_data_to_notes text = Inr (pre @ n\<lparr>column := column n mod 128\<rparr> # post)
           \<and> column n mod 128 = column n AND 0x7f
           \<and> column n mod 128 \<noteq> column n
           \<and> pack_note n data = Some (Inr (data @ of_int (column n AND 0x7f) # varint (nat (start n))))"
proof -
  have st: "is_step n" using assms by (simp add: is_step_def)
  then have en: "encodable n" using assms by (simp add: encodable_def)
  with assms(5) have e: "\<forall>m \<in> set (pre @ n # post). encodable m"
    by (auto intro: faithful_encodable)
  have dn: "decoded n = n\<lparr>column := column n mod 128\<rparr>"
    using st assms by (simp add: decoded_def Note_def note_eq_iff and_0x7f_int)
  from assms(5) have "map decoded pre = pre" "map decoded post = post"
    by (simp_all add: faithful_decoded map_idI)
  with dn have d: "map decoded (pre @ n # post) = pre @ n\<lparr>column := column n mod 128\<rparr> # post"
    by simp
  have ne: "column n mod 128 \<noteq> column n"
    using assms(4) pos_mod_bound[of 128 "column n"] by linarith
  have pn: "pack_note n data = Some (Inr (data @ of_int (column n AND 0x7f) # varint (nat (start n))))"
    using pack_note_bytes[OF en, of data] st by (simp add: note_bytes_def)
  show ?thesis
    using notes_text[OF e] notes_text_decoded[OF e] ne pn
    unfolding d by (simp add: and_0x7f_int)
qed

theorem step_column_masked_witness:
  "special (make_step 7 200) = - 1 \<and> start (make_step 7 200) = end' (make_step 7 200)
   \<and> 0 \<le> start (make_step 7 200) \<and> 128 \<le> column (make_step 7 200)
   \<and> notes_to_clipboard_data [make_step 7 200] = Some (Inr ''ArrowVortex:notes:!!,Uq'')
   \<and> clipboard_data_to_notes ''ArrowVortex:notes:!!,Uq'' = Inr [make_step 7 72]"
proof -
  let ?n = "make_step 7 200"
  have h: "special ?n = - 1" "start ?n = end' ?n" "0 \<le> start ?n" "128 \<le> column ?n"
    by (simp_all add: make_step_def Note_def)
  have e: "\<forall>m \<in> set [?n]. encodable m"
    by (simp add: encodable_def is_step_def make_step_def Note_def)
  have b: "0 # varint (length [?n]) @ concat (map note_bytes [?n]) = [0, 1, 72, 7]"
    by (simp add: note_bytes_def is_step_def make_step_def Note_def varint_small and_0x7f_int)
  have x: "decode_ascii (a85encode [0, 1, 72, 7]) = ''!!,Uq''"
    by (simp add: a85_eval)
  have t: "notes_to_clipboard_data [?n] = Some (Inr ''ArrowVortex:notes:!!,Uq'')"
    using notes_text[OF e] unfolding b x by (simp add: NOTES_MAGIC_def)
  have m: "?n\<lparr>column := column ?n mod 128\<rparr> = make_step 7 72"
    by (simp add: make_step_def Note_def)
  from step_column_masked[OF h, of "[]" "[]"] t
  have "clipboard_data_to_notes ''ArrowVortex:notes:!!,Uq'' = Inr [make_step 7 72]"
    unfolding m by auto
  with h t show ?thesis by simp
qed

lemma pack_vlc_nonneg:
  assumes "pack_vlc v = Some bs"
  shows "0 \<le> v"
proof (rule pack_vlc.raw_induct[where P = "\<lambda>v bs. 0 \<le> v", OF _ assms], goal_cases)
  case (1 f val y)
  show ?case
  proof (cases "drop_bit 7 val = 0")
    case True
    then have "val div 128 = 0" by (simp add: drop_bit_eq_div)
    then show ?thesis by (simp add: div_eq_0_iff)
  next
    case False
    with 1(2) obtain rest where "f (drop_bit 7 val) = Some rest"
      by (auto simp: Let_def split: Option.bind_splits)
    then have "0 \<le> drop_bit 7 val" by (rule 1(1))
    then show ?thesis by simp
  qed
qed

lemma pack_vlc_negative: "v < 0 \<Longrightarrow> pack_vlc v = None"
  using pack_vlc_nonneg[of v] by (cases "pack_vlc v") auto

text \<open>
  The claim as stated fails on a step with a negative tick: the column 200 is masked and
  written, then \<^verbatim>\<open>pack_vlc(-1)\<close> never reaches \<open>value == 0\<close> and the encoder does not return.
\<close>

theorem step_column_masked_counterexample:
  "special (make_step (- 1) 200) = - 1
   \<and> start (make_step (- 1) 200) = end' (make_step (- 1) 200)
   \<and> 128 \<le> column (make_step (- 1) 200)
   \<and> notes_to_clipboard_data [make_step (- 1) 200] = None"
proof -
  have "pack_vlc (int (length [make_step (- 1) 200])) = Some (varint (nat (int (length [make_step (- 1) 200]))))"
    by (rule pack_vlc_varint) simp
  moreover have "pack_vlc (- 1) = None" by (rule pack_vlc_negative) simp
  ultimately show ?thesis
    by (simp add: notes_to_clipboard_data_def notes_payload_def pack_note_def pack_B_def
        is_step_def make_step_def Note_def)
qed

section \<open>The tempo encoder\<close>

declare chunks.simps [simp del]

lemma pack_item_bytes: "tick_ok item \<Longrightarrow> pack_item item blocks = Inr (blocks @ item_bytes item)"
  by (simp add: pack_item_def pack_I_def pack_d_def item_bytes_def tick_ok_def)

lemma pack_items_bytes:
  "\<forall>item \<in> set items. tick_ok item \<Longrightarrow>
   pack_items items blocks = Inr (blocks @ concat (map item_bytes items))"
  by (induction items arbitrary: blocks) (simp_all add: pack_item_bytes)

lemma pack_tempo_block_bytes:
  assumes "\<forall>item \<in> set items. tick_ok item" "length items \<le> 255" "type = 0 \<or> type = 1"
  shows "pack_tempo_block items type blocks = Inr (blocks @ tempo_block type items)"
proof -
  have "pack_B (int (length items)) = Inr [of_nat (length items)]"
    using assms(2) pack_B_ok[of "int (length items)"] by simp
  moreover have "pack_B type = Inr [of_int type]"
    using assms(3) pack_B_ok[of type] by auto
  ultimately show ?thesis
    using pack_items_bytes[OF assms(1)] by (simp add: pack_tempo_block_def tempo_block_def)
qed

lemma chunks_Nil: "chunks n [] = []"
  by (simp add: chunks.simps)

lemma chunks_step: "0 < n \<Longrightarrow> xs \<noteq> [] \<Longrightarrow> chunks n xs = take n xs # chunks n (drop n xs)"
  by (subst chunks.simps) simp

lemma concat_chunks: "0 < n \<Longrightarrow> concat (chunks n xs) = xs"
proof (induction n xs rule: chunks.induct)
  case (1 n xs)
  show ?case
  proof (cases "xs = []")
    case True
    then show ?thesis by (simp add: chunks_Nil)
  next
    case False
    with 1 show ?thesis by (simp add: chunks_step)
  qed
qed

lemma chunks_length:
  "0 < n \<Longrightarrow> c \<in> set (chunks n xs) \<Longrightarrow> 1 \<le> length c \<and> length c \<le> n \<and> set c \<subseteq> set xs"
proof (induction n xs rule: chunks.induct)
  case (1 n xs)
  show ?case
  proof (cases "xs = []")
    case True
    with 1 show ?thesis by (simp add: chunks_Nil)
  next
    case False
    with "1.prems" have "c = take n xs \<or> c \<in> set (chunks n (drop n xs))"
      by (simp add: chunks_step)
    then show ?thesis
    proof
      assume "c = take n xs"
      with False "1.prems" show ?thesis
        by (cases xs) (auto dest: in_set_takeD)
    next
      assume "c \<in> set (chunks n (drop n xs))"
      with "1.IH" False "1.prems" show ?thesis
        by (auto dest: in_set_dropD)
    qed
  qed
qed

lemma pack_blocks_chunks:
  assumes "\<forall>item \<in> set xs. tick_ok item" "type = 0 \<or> type = 1"
  shows "pack_blocks (py_range i (length xs) 254) xs type blocks
         = Inr (blocks @ concat (map (tempo_block type) (chunks 254 (drop i xs))))"
proof (induction i "length xs" "254::nat" arbitrary: blocks rule: py_range.induct)
  case (1 i)
  show ?case
  proof (cases "i < length xs")
    case False
    then show ?thesis by (simp add: py_range.simps chunks_Nil)
  next
    case True
    let ?c = "take 254 (drop i xs)"
    have c: "\<forall>item \<in> set ?c. tick_ok item" "length ?c \<le> 255"
      using assms(1) by (auto dest!: in_set_takeD in_set_dropD)
    have p: "pack_tempo_block ?c type blocks = Inr (blocks @ tempo_block type ?c)"
      using c assms(2) by (rule pack_tempo_block_bytes)
    have r: "py_range i (length xs) 254 = i # py_range (i + 254) (length xs) 254"
      using True by (subst py_range.simps) simp
    have k: "chunks 254 (drop i xs) = ?c # chunks 254 (drop (i + 254) xs)"
      using True by (simp add: chunks_step add.commute)
    have "pack_blocks (py_range (i + 254) (length xs) 254) xs type (blocks @ tempo_block type ?c)
          = Inr ((blocks @ tempo_block type ?c)
                 @ concat (map (tempo_block type) (chunks 254 (drop (i + 254) xs))))"
      using True by (intro "1.hyps") simp
    then show ?thesis
      unfolding r k using p by simp
  qed
qed

lemma tempo_payload_layout:
  assumes "\<forall>item \<in> set bpms \<union> set stops. tick_ok item"
  shows "tempo_payload bpms stops = Inr (tempo_layout (sort_key fst bpms) (sort_key fst stops))"
proof -
  have b: "\<forall>item \<in> set (sort_key fst bpms). tick_ok item"
    and s: "\<forall>item \<in> set (sort_key fst stops). tick_ok item"
    using assms by simp_all
  have "pack_B 0 = Inr [0]" using pack_B_ok[of 0] by simp
  then show ?thesis
    using pack_blocks_chunks[OF b, of 0 0 "[]"] pack_blocks_chunks[OF s, of 1 0]
    by (simp add: tempo_payload_def tempo_layout_def Let_def)
qed


lemma le_bytes_numeral:
  "le_bytes (numeral k) x = of_nat (x mod 256) # le_bytes (pred_numeral k) (x div 256)"
  by (metis le_bytes.simps(2) numeral_eq_Suc)

lemma tempo_text:
  assumes "\<forall>item \<in> set bpms \<union> set stops. tick_ok item"
  shows "tempo_to_clipboard_data bpms stops
         = Inr (TEMPO_MAGIC
             @ decode_ascii (a85encode (tempo_layout (sort_key fst bpms) (sort_key fst stops))))"
  using tempo_payload_layout[OF assms] by (simp add: tempo_to_clipboard_data_def)

lemma pack_items_bad:
  "\<exists>item \<in> set items. \<not> tick_ok item \<Longrightarrow> pack_items items blocks = Inl StructError"
proof (induction items arbitrary: blocks)
  case Nil
  then show ?case by simp
next
  case (Cons item items)
  show ?case
  proof (cases "tick_ok item")
    case True
    with Cons.prems have "\<exists>item \<in> set items. \<not> tick_ok item" by simp
    with Cons.IH True show ?thesis by (simp add: pack_item_bytes)
  next
    case False
    then have "pack_item item blocks = Inl StructError"
      by (auto simp: pack_item_def pack_I_def tick_ok_def)
    then show ?thesis by simp
  qed
qed

lemma pack_tempo_block_bad:
  assumes "\<exists>item \<in> set items. \<not> tick_ok item"
  shows "pack_tempo_block items type blocks = Inl StructError"
proof -
  have "pack_B x = Inl StructError \<or> (\<exists>bs. pack_B x = Inr bs)" for x
    by (simp add: pack_B_def)
  then show ?thesis
    using pack_items_bad[OF assms]
    by (auto simp: pack_tempo_block_def split: sum.splits) (metis sum.distinct(1) sum.inject(1))+
qed

lemma pack_blocks_bad:
  assumes "type = 0 \<or> type = 1"
  shows "\<exists>item \<in> set (drop i xs). \<not> tick_ok item \<Longrightarrow>
         pack_blocks (py_range i (length xs) 254) xs type blocks = Inl StructError"
proof (induction i "length xs" "254::nat" arbitrary: blocks rule: py_range.induct)
  case (1 i)
  then have lt: "i < length xs" by (cases "i < length xs") auto
  let ?c = "take 254 (drop i xs)"
  have r: "py_range i (length xs) 254 = i # py_range (i + 254) (length xs) 254"
    using lt by (subst py_range.simps) simp
  show ?case
  proof (cases "\<exists>item \<in> set ?c. \<not> tick_ok item")
    case True
    then show ?thesis
      unfolding r by (simp add: pack_tempo_block_bad)
  next
    case False
    then have ok: "\<forall>item \<in> set ?c. tick_ok item" by blast
    have "length ?c \<le> 255" by simp
    with ok have p: "pack_tempo_block ?c type blocks = Inr (blocks @ tempo_block type ?c)"
      using assms by (intro pack_tempo_block_bytes)
    have "drop i xs = ?c @ drop (i + 254) xs"
      by (metis append_take_drop_id drop_drop add.commute)
    with "1.prems" False have "\<exists>item \<in> set (drop (i + 254) xs). \<not> tick_ok item"
      by (metis Un_iff set_append)
    with lt have "pack_blocks (py_range (i + 254) (length xs) 254) xs type (blocks @ tempo_block type ?c)
          = Inl StructError"
      by (intro "1.hyps") simp_all
    then show ?thesis
      unfolding r using p by simp
  qed
qed

lemma tempo_payload_bad:
  assumes "\<exists>item \<in> set bpms \<union> set stops. \<not> tick_ok item"
  shows "tempo_payload bpms stops = Inl StructError"
proof (cases "\<exists>item \<in> set bpms. \<not> tick_ok item")
  case True
  then have "\<exists>item \<in> set (drop 0 (sort_key fst bpms)). \<not> tick_ok item" by simp
  then have "pack_blocks (py_range 0 (length (sort_key fst bpms)) 254) (sort_key fst bpms) 0 []
             = Inl StructError"
    by (intro pack_blocks_bad) simp_all
  then show ?thesis by (simp add: tempo_payload_def Let_def)
next
  case False
  then have b: "\<forall>item \<in> set (sort_key fst bpms). tick_ok item" by simp
  from False assms have "\<exists>item \<in> set (drop 0 (sort_key fst stops)). \<not> tick_ok item" by auto
  then have "pack_blocks (py_range 0 (length (sort_key fst stops)) 254) (sort_key fst stops) 1 blocks
             = Inl StructError" for blocks
    by (intro pack_blocks_bad) simp_all
  then show ?thesis
    using pack_blocks_chunks[OF b, of 0 0 "[]"] by (simp add: tempo_payload_def Let_def)
qed

text \<open>
  Claim C5. For every input the tempo encoder either raises \<^verbatim>\<open>struct.error\<close>, when a
  tick does not fit 32 bits, or produces a payload, and the payload is:
  the tempo changes, sorted by tick, cut into consecutive chunks of at most 254 items,
  one block of type 0 for each chunk; then the stops likewise in blocks of type 1; each
  block is the count byte (from 1 to 254), the type byte and the items, an item being the
  tick as four little-endian bytes and the value as eight; and one zero byte after the
  last block, with nothing behind it.
\<close>

theorem tempo_payload_blocks:
  "tempo_payload bpms stops
     = (if \<forall>item \<in> set bpms \<union> set stops. tick_ok item
        then Inr (tempo_layout (sort_key fst bpms) (sort_key fst stops))
        else Inl StructError)
   \<and> tempo_to_clipboard_data bpms stops
     = (if \<forall>item \<in> set bpms \<union> set stops. tick_ok item
        then Inr (TEMPO_MAGIC
               @ decode_ascii (a85encode (tempo_layout (sort_key fst bpms) (sort_key fst stops))))
        else Inl StructError)
   \<and> concat (chunks 254 (sort_key fst bpms)) = sort_key fst bpms
   \<and> concat (chunks 254 (sort_key fst stops)) = sort_key fst stops
   \<and> (\<forall>c \<in> set (chunks 254 (sort_key fst bpms)) \<union> set (chunks 254 (sort_key fst stops)).
         1 \<le> length c \<and> length c \<le> 254)"
proof -
  have c: "1 \<le> length c \<and> length c \<le> 254"
    if "c \<in> set (chunks 254 (sort_key fst bpms)) \<union> set (chunks 254 (sort_key fst stops))" for c
    using that chunks_length[of 254 c] by auto
  show ?thesis
  proof (cases "\<forall>item \<in> set bpms \<union> set stops. tick_ok item")
    case True
    with c tempo_payload_layout[OF True] tempo_text[OF True] show ?thesis
      by (simp add: concat_chunks)
  next
    case False
    then have "tempo_payload bpms stops = Inl StructError"
      by (intro tempo_payload_bad) blast
    with c False show ?thesis
      by (simp add: concat_chunks tempo_to_clipboard_data_def)
  qed
qed

theorem tempo_payload_blocks_witness:
  "tick_ok (48, 1) \<and> tick_ok (0, 2) \<and> tick_ok (48, 3) \<and> tick_ok (7, 9)
   \<and> tempo_payload [(48, 1), (0, 2), (48, 3)] [(7, 9)]
       = Inr [3, 0, 0, 0, 0, 0, 2, 0, 0, 0, 0, 0, 0, 0, 48, 0, 0, 0, 1, 0, 0, 0, 0, 0, 0, 0,
              48, 0, 0, 0, 3, 0, 0, 0, 0, 0, 0, 0,
              1, 1, 7, 0, 0, 0, 9, 0, 0, 0, 0, 0, 0, 0,
              0]"
proof -
  have t: "tick_ok (48, 1)" "tick_ok (0, 2)" "tick_ok (48, 3)" "tick_ok (7, 9)"
    by (simp_all add: tick_ok_def)
  then have a: "\<forall>item \<in> set [(48, 1), (0, 2), (48, 3)] \<union> set [(7, 9)]. tick_ok item"
    by simp
  have l: "tempo_layout (sort_key fst [(48, 1), (0, 2), (48, 3 :: float64)]) (sort_key fst [(7, 9)])
        = [3, 0, 0, 0, 0, 0, 2, 0, 0, 0, 0, 0, 0, 0, 48, 0, 0, 0, 1, 0, 0, 0, 0, 0, 0, 0,
           48, 0, 0, 0, 3, 0, 0, 0, 0, 0, 0, 0,
           1, 1, 7, 0, 0, 0, 9, 0, 0, 0, 0, 0, 0, 0,
           0]"
    by (simp add: tempo_layout_def chunks_step chunks_Nil tempo_block_def item_bytes_def
        le_bytes_numeral)
  from tempo_payload_blocks[of "[(48, 1), (0, 2), (48, 3)]" "[(7, 9)]"] a t show ?thesis
    unfolding l by simp
qed

section \<open>Round trip of tempo data\<close>

lemma unpack_I_at:
  assumes "0 \<le> t" "t \<le> 4294967295"
  shows "unpack_I (pre @ le_bytes 4 (nat t) @ post) (length pre) = Inr (t, length pre + 4)"
proof -
  have "nat t < 256 ^ 4" using assms by simp
  then have "int (le_nat (le_bytes 4 (nat t))) = t"
    using assms by (simp add: le_nat_le_bytes)
  then show ?thesis
    using unpack_at[of "le_bytes 4 (nat t)" Fmt_I pre post] by (simp add: unpack_I_def)
qed

lemma unpack_d_at:
  "unpack_d (pre @ le_bytes 8 (unat v) @ post) (length pre) = Inr (v, length pre + 8)"
proof -
  have "unat v < 2 ^ 64" using unsigned_less[of v] by simp
  then have "unat v < 256 ^ 8" by simp
  then have "le_nat (le_bytes 8 (unat v)) = unat v"
    by (rule le_nat_le_bytes)
  then show ?thesis
    using unpack_at[of "le_bytes 8 (unat v)" Fmt_d pre post] by (simp add: unpack_d_def)
qed

lemma length_item_bytes: "length (item_bytes item) = 12"
  by (simp add: item_bytes_def)

lemma read_item_once:
  assumes "tick_ok item" "type = 0 \<or> type = 1"
  shows "read_items (Suc k) type (pre @ item_bytes item @ post) (length pre) bpms stops
         = read_items k type (pre @ item_bytes item @ post) (length pre + 12)
             (if type = 0 then bpms @ [item] else bpms) (if type = 0 then stops else stops @ [item])"
proof -
  let ?t = "le_bytes 4 (nat (fst item))"
  let ?v = "le_bytes 8 (unat (snd item))"
  have u1: "unpack_I (pre @ ?t @ (?v @ post)) (length pre) = Inr (fst item, length pre + 4)"
    using assms(1) by (intro unpack_I_at) (simp_all add: tick_ok_def)
  have l: "length (pre @ ?t) = length pre + 4" by simp
  have u2: "unpack_d (pre @ ?t @ ?v @ post) (length pre + 4) = Inr (snd item, length pre + 12)"
    using unpack_d_at[of "pre @ ?t" "snd item" post] unfolding l by simp
  show ?thesis
    using assms(2) u1 u2 by (auto simp: item_bytes_def)
qed

lemma read_items_bytes:
  assumes "type = 0 \<or> type = 1"
  shows "\<forall>item \<in> set items. tick_ok item \<Longrightarrow>
   read_items (length items) type (pre @ concat (map item_bytes items) @ post) (length pre) bpms stops
     = Inr (if type = 0 then bpms @ items else bpms, if type = 0 then stops else stops @ items,
            length pre + length (concat (map item_bytes items)))"
proof (induction items arbitrary: pre bpms stops)
  case Nil
  then show ?case by simp
next
  case (Cons item items)
  then have i: "tick_ok item" and rest_ok: "\<forall>item \<in> set items. tick_ok item" by simp_all
  let ?b = "if type = 0 then bpms @ [item] else bpms"
  let ?s = "if type = 0 then stops else stops @ [item]"
  have "read_items (Suc (length items)) type (pre @ item_bytes item @ (concat (map item_bytes items) @ post))
          (length pre) bpms stops
        = read_items (length items) type (pre @ item_bytes item @ (concat (map item_bytes items) @ post))
          (length pre + 12) ?b ?s"
    using i assms by (rule read_item_once)
  moreover have "read_items (length items) type ((pre @ item_bytes item) @ concat (map item_bytes items) @ post)
          (length (pre @ item_bytes item)) ?b ?s
        = Inr (if type = 0 then ?b @ items else ?b, if type = 0 then ?s else ?s @ items,
               length (pre @ item_bytes item) + length (concat (map item_bytes items)))"
    using rest_ok by (rule Cons.IH)
  ultimately show ?case by (simp add: length_item_bytes)
qed


lemma read_block_once:
  assumes "valid_block blk"
  shows "read_blocks (pre @ block_bytes blk @ post) (length pre) bpms stops
         = read_blocks (pre @ block_bytes blk @ post) (length pre + length (block_bytes blk))
             (if fst blk = 0 then bpms @ snd blk else bpms)
             (if fst blk = 0 then stops else stops @ snd blk)"
proof -
  let ?items = "snd blk"
  let ?c = "of_nat (length ?items) :: byte"
  let ?t = "of_int (fst blk) :: byte"
  let ?bs = "concat (map item_bytes ?items)"
  let ?data = "pre @ ?c # ?t # ?bs @ post"
  from assms have ty: "fst blk = 0 \<or> fst blk = 1" and n: "1 \<le> length ?items" "length ?items \<le> 255"
    and ok: "\<forall>item \<in> set ?items. tick_ok item"
    by (simp_all add: valid_block_def)
  have bb: "pre @ block_bytes blk @ post = ?data"
    by (simp add: block_bytes_def tempo_block_def)
  have lb: "length (block_bytes blk) = 2 + length ?bs"
    by (simp add: block_bytes_def tempo_block_def)
  have c: "uint ?c = int (length ?items)"
    using n by (simp add: uint_byte_of_nat)
  have t: "uint ?t = fst blk"
    using ty by (auto simp: uint_byte_of_int)
  have u1: "unpack_B ?data (length pre) = Inr (int (length ?items), length pre + 1)"
    using unpack_B_at[of pre ?c "?t # ?bs @ post"] c by simp
  have l2: "length (pre @ [?c]) = length pre + 1" by simp
  have u2: "unpack_B ?data (length pre + 1) = Inr (fst blk, length pre + 2)"
    using unpack_B_at[of "pre @ [?c]" ?t "?bs @ post"] t unfolding l2 by simp
  have l3: "length (pre @ [?c, ?t]) = length pre + 2" by simp
  have u3: "read_items (length ?items) (fst blk) ?data (length pre + 2) bpms stops
            = Inr (if fst blk = 0 then bpms @ ?items else bpms,
                   if fst blk = 0 then stops else stops @ ?items,
                   length pre + 2 + length ?bs)"
    using read_items_bytes[OF ty ok, of "pre @ [?c, ?t]" post bpms stops] unfolding l3 by simp
  from n have "?items \<noteq> []" by (cases ?items) simp_all
  then have nz: "int (length ?items) \<noteq> 0" by simp
  have "read_blocks ?data (length pre) bpms stops
        = read_blocks ?data (length pre + 2 + length ?bs)
            (if fst blk = 0 then bpms @ ?items else bpms)
            (if fst blk = 0 then stops else stops @ ?items)"
    by (subst read_blocks.simps)
       (simp only: u1 u2 u3 nz sum.case prod.case if_False nat_int)
  then show ?thesis
    unfolding bb lb by (simp add: add.assoc)
qed

lemma read_blocks_list:
  "\<forall>blk \<in> set blks. valid_block blk \<Longrightarrow>
   read_blocks (pre @ concat (map block_bytes blks) @ post) (length pre) bpms stops
     = read_blocks (pre @ concat (map block_bytes blks) @ post)
         (length pre + length (concat (map block_bytes blks)))
         (bpms @ items_of_type 0 blks) (stops @ items_of_type 1 blks)"
proof (induction blks arbitrary: pre bpms stops)
  case Nil
  then show ?case by (simp add: items_of_type_def)
next
  case (Cons blk blks)
  then have v: "valid_block blk" and vs: "\<forall>blk \<in> set blks. valid_block blk" by simp_all
  from v have ty: "fst blk = 0 \<or> fst blk = 1" by (simp add: valid_block_def)
  let ?b = "if fst blk = 0 then bpms @ snd blk else bpms"
  let ?s = "if fst blk = 0 then stops else stops @ snd blk"
  have "read_blocks (pre @ block_bytes blk @ (concat (map block_bytes blks) @ post)) (length pre) bpms stops
        = read_blocks (pre @ block_bytes blk @ (concat (map block_bytes blks) @ post))
            (length pre + length (block_bytes blk)) ?b ?s"
    using v by (rule read_block_once)
  moreover have "read_blocks ((pre @ block_bytes blk) @ concat (map block_bytes blks) @ post)
            (length (pre @ block_bytes blk)) ?b ?s
        = read_blocks ((pre @ block_bytes blk) @ concat (map block_bytes blks) @ post)
            (length (pre @ block_bytes blk) + length (concat (map block_bytes blks)))
            (?b @ items_of_type 0 blks) (?s @ items_of_type 1 blks)"
    using vs by (rule Cons.IH)
  ultimately show ?case
    using ty by (auto simp: items_of_type_def add.assoc)
qed

lemma read_blocks_end:
  "read_blocks (pre @ 0 # post) (length pre) bpms stops = Inr (bpms, stops, length pre + 1)"
  using unpack_B_at[of pre 0 post] by (subst read_blocks.simps) simp

lemma read_blocks_payload:
  assumes "\<forall>blk \<in> set blks. valid_block blk"
  shows "read_blocks (concat (map block_bytes blks) @ 0 # post) 0 [] []
         = Inr (items_of_type 0 blks, items_of_type 1 blks, length (concat (map block_bytes blks)) + 1)"
  using read_blocks_list[OF assms, of "[]" "0 # post" "[]" "[]"]
    read_blocks_end[of "concat (map block_bytes blks)" post]
  by simp


lemma tempo_layout_blocks:
  "tempo_layout bpms stops
   = concat (map block_bytes (map (Pair 0) (chunks 254 bpms) @ map (Pair 1) (chunks 254 stops))) @ [0]"
  by (simp add: tempo_layout_def block_bytes_def comp_def)

lemma chunk_blocks_valid:
  assumes "\<forall>item \<in> set xs. tick_ok item" "type = 0 \<or> type = 1"
  shows "\<forall>blk \<in> set (map (Pair type) (chunks 254 xs)). valid_block blk"
proof
  fix blk
  assume "blk \<in> set (map (Pair type) (chunks 254 xs))"
  then obtain c where c: "c \<in> set (chunks 254 xs)" and blk: "blk = (type, c)" by auto
  from chunks_length[OF _ c] have "1 \<le> length c" "length c \<le> 254" "set c \<subseteq> set xs" by simp_all
  with assms blk show "valid_block blk" by (auto simp: valid_block_def)
qed

lemma items_of_type_chunks:
  "items_of_type 0 (map (Pair 0) cs @ map (Pair 1) ds) = concat cs"
  "items_of_type 1 (map (Pair 0) cs @ map (Pair 1) ds) = concat ds"
  by (simp_all add: items_of_type_def filter_map comp_def)

lemma read_blocks_layout:
  assumes "\<forall>item \<in> set bpms \<union> set stops. tick_ok item"
  shows "read_blocks (tempo_layout bpms stops) 0 [] []
         = Inr (bpms, stops, length (tempo_layout bpms stops))"
proof -
  let ?blks = "map (Pair 0) (chunks 254 bpms) @ map (Pair 1) (chunks 254 stops)"
  have v: "\<forall>blk \<in> set ?blks. valid_block blk"
    using chunk_blocks_valid[of bpms 0] chunk_blocks_valid[of stops 1] assms by auto
  show ?thesis
    using read_blocks_payload[OF v, of "[]"]
    unfolding tempo_layout_blocks by (simp add: items_of_type_chunks concat_chunks)
qed

lemma tempo_text_decoded:
  assumes "\<forall>item \<in> set bpms \<union> set stops. tick_ok item"
  shows "clipboard_data_to_tempo (TEMPO_MAGIC @ decode_ascii (a85encode (tempo_layout bpms stops)))
         = Inr (bpms, stops)"
  using read_blocks_layout[OF assms]
  by (simp add: clipboard_data_to_tempo_def a85_roundtrip)

text \<open>
  Claim C2, as amended. For every list of tempo changes and every list of stops whose
  ticks lie between 0 and \<open>2^32 - 1\<close>, the encoder returns a text, and the decoder
  returns from it the two lists sorted by tick: each is sorted, is a permutation of the
  input, and keeps the input order among the items of one tick. The value of an item is
  its 64-bit pattern.
\<close>

theorem tempo_roundtrip:
  assumes "\<forall>item \<in> set bpms \<union> set stops. tick_ok item"
  shows "\<exists>text. tempo_to_clipboard_data bpms stops = Inr text
           \<and> clipboard_data_to_tempo text = Inr (sort_key fst bpms, sort_key fst stops)
           \<and> sorted (map fst (sort_key fst bpms)) \<and> sorted (map fst (sort_key fst stops))
           \<and> mset (sort_key fst bpms) = mset bpms \<and> mset (sort_key fst stops) = mset stops
           \<and> (\<forall>k. filter (\<lambda>item. fst item = k) (sort_key fst bpms)
                        = filter (\<lambda>item. fst item = k) bpms
                  \<and> filter (\<lambda>item. fst item = k) (sort_key fst stops)
                        = filter (\<lambda>item. fst item = k) stops)"
proof -
  have s: "\<forall>item \<in> set (sort_key fst bpms) \<union> set (sort_key fst stops). tick_ok item"
    using assms by simp
  show ?thesis
    using tempo_text[OF assms] tempo_text_decoded[OF s]
    by (simp add: sort_key_stable)
qed

lemma replicate_numeral: "replicate (numeral k) x = x # replicate (pred_numeral k) x"
  by (metis numeral_eq_Suc replicate_Suc)

lemma tempo_example_text:
  "decode_ascii (a85encode
     [3, 0, 0, 0, 0, 0, 0, 0, 0, 0, 0, 0, 78, 64, 48, 0, 0, 0, 0, 0, 0, 0, 0, 0, 110, 64,
      48, 0, 0, 0, 0, 0, 0, 0, 0, 0, 94, 64, 1, 1, 24, 0, 0, 0, 0, 0, 0, 0, 0, 0, 224, 63, 0])
   = ''!rr<$zz:-^K5zzDEolUzz?9eMl(]XO9z!!(qA!!''"
  by (simp add: a85_eval replicate_numeral)

lemma tempo_example_layout:
  "tempo_layout
     (sort_key fst ([(48, 0x406E000000000000), (0, 0x404E000000000000), (48, 0x405E000000000000)]
        :: tempo_item list))
     (sort_key fst [(24, 0x3FE0000000000000)])
   = [3, 0, 0, 0, 0, 0, 0, 0, 0, 0, 0, 0, 78, 64, 48, 0, 0, 0, 0, 0, 0, 0, 0, 0, 110, 64,
      48, 0, 0, 0, 0, 0, 0, 0, 0, 0, 94, 64, 1, 1, 24, 0, 0, 0, 0, 0, 0, 0, 0, 0, 224, 63, 0]"
  by (simp add: tempo_layout_def chunks_step chunks_Nil tempo_block_def item_bytes_def
      le_bytes_numeral)

theorem tempo_roundtrip_witness:
  "tick_ok (48, 0x406E000000000000) \<and> tick_ok (0, 0x404E000000000000)
   \<and> tick_ok (48, 0x405E000000000000) \<and> tick_ok (24, 0x3FE0000000000000)
   \<and> tempo_to_clipboard_data
         [(48, 0x406E000000000000), (0, 0x404E000000000000), (48, 0x405E000000000000)]
         [(24, 0x3FE0000000000000)]
       = Inr ''ArrowVortex:tempo:!rr<$zz:-^K5zzDEolUzz?9eMl(]XO9z!!(qA!!''
   \<and> clipboard_data_to_tempo ''ArrowVortex:tempo:!rr<$zz:-^K5zzDEolUzz?9eMl(]XO9z!!(qA!!''
       = Inr ([(0, 0x404E000000000000), (48, 0x406E000000000000), (48, 0x405E000000000000)],
              [(24, 0x3FE0000000000000)])"
proof -
  let ?b = "[(48, 0x406E000000000000), (0, 0x404E000000000000), (48, 0x405E000000000000)] :: tempo_item list"
  let ?s = "[(24, 0x3FE0000000000000)] :: tempo_item list"
  have t: "tick_ok (48, 0x406E000000000000 :: float64)" "tick_ok (0, 0x404E000000000000 :: float64)"
    "tick_ok (48, 0x405E000000000000 :: float64)" "tick_ok (24, 0x3FE0000000000000 :: float64)"
    by (simp_all add: tick_ok_def)
  then have a: "\<forall>item \<in> set ?b \<union> set ?s. tick_ok item" by simp
  have e: "tempo_to_clipboard_data ?b ?s
           = Inr ''ArrowVortex:tempo:!rr<$zz:-^K5zzDEolUzz?9eMl(]XO9z!!(qA!!''"
    using tempo_text[OF a] unfolding tempo_example_layout tempo_example_text
    by (simp add: TEMPO_MAGIC_def)
  have srt: "sort_key fst ?b = [(0, 0x404E000000000000), (48, 0x406E000000000000), (48, 0x405E000000000000)]"
    "sort_key fst ?s = ?s"
    by simp_all
  from tempo_roundtrip[OF a] e
  have "clipboard_data_to_tempo ''ArrowVortex:tempo:!rr<$zz:-^K5zzDEolUzz?9eMl(]XO9z!!(qA!!''
        = Inr (sort_key fst ?b, sort_key fst ?s)"
    by auto
  with t e show ?thesis unfolding srt by simp
qed

text \<open>
  The claim as stated fails on a tick that does not fit 32 bits: \<^verbatim>\<open>struct.pack('<I', ...)\<close>
  raises and the encoder returns no text.
\<close>

theorem tempo_roundtrip_counterexample:
  "tempo_to_clipboard_data [(4294967296, 0x405E000000000000)] [] = Inl StructError"
  by (simp add: tempo_to_clipboard_data_def tempo_payload_def py_range.simps
      pack_tempo_block_def pack_item_def pack_B_def pack_I_def)

section \<open>Failures of the decoders\<close>

text \<open>
  Claim C7. A text that does not start with \<^verbatim>\<open>ArrowVortex:tempo:\<close> makes the tempo
  decoder raise \<^verbatim>\<open>ValueError('Invalid data')\<close>, and a text that does not start with
  \<^verbatim>\<open>ArrowVortex:notes:\<close> makes the note decoder raise it: neither returns a result.
\<close>

theorem magic_mismatch:
  "TEMPO_MAGIC = ''ArrowVortex:tempo:'' \<and> NOTES_MAGIC = ''ArrowVortex:notes:''
   \<and> (\<not> prefix TEMPO_MAGIC data \<longrightarrow>
        clipboard_data_to_tempo data = Inl (ValueError (Some ''Invalid data'')))
   \<and> (\<not> prefix NOTES_MAGIC data \<longrightarrow>
        clipboard_data_to_notes data = Inl (ValueError (Some ''Invalid data'')))"
  by (simp add: clipboard_data_to_tempo_def clipboard_data_to_notes_def TEMPO_MAGIC_def
      NOTES_MAGIC_def)

theorem magic_mismatch_witness:
  "\<not> prefix TEMPO_MAGIC ''ArrowVortex:notes:!!<3$K)c_gJIE@s''
   \<and> clipboard_data_to_tempo ''ArrowVortex:notes:!!<3$K)c_gJIE@s''
       = Inl (ValueError (Some ''Invalid data''))
   \<and> \<not> prefix NOTES_MAGIC ''arrowvortex:notes:!!<3$K)c_gJIE@s''
   \<and> clipboard_data_to_notes ''arrowvortex:notes:!!<3$K)c_gJIE@s''
       = Inl (ValueError (Some ''Invalid data''))"
proof -
  have 1: "\<not> prefix TEMPO_MAGIC ''ArrowVortex:notes:!!<3$K)c_gJIE@s''"
    by (simp add: TEMPO_MAGIC_def)
  have 2: "\<not> prefix NOTES_MAGIC ''arrowvortex:notes:!!<3$K)c_gJIE@s''"
    by (simp add: NOTES_MAGIC_def)
  from magic_mismatch[of "''ArrowVortex:notes:!!<3$K)c_gJIE@s''"] 1
  have 3: "clipboard_data_to_tempo ''ArrowVortex:notes:!!<3$K)c_gJIE@s''
           = Inl (ValueError (Some ''Invalid data''))"
    by blast
  from magic_mismatch[of "''arrowvortex:notes:!!<3$K)c_gJIE@s''"] 2
  have 4: "clipboard_data_to_notes ''arrowvortex:notes:!!<3$K)c_gJIE@s''
           = Inl (ValueError (Some ''Invalid data''))"
    by blast
  from 1 2 3 4 show ?thesis by blast
qed

lemma unpack_error: "unpack fmt data offset = Inl e \<Longrightarrow> e = ValueError None"
  by (auto simp: unpack_def Let_def split: if_splits)


lemma unpack_I_error: "unpack_I data offset = Inl e \<Longrightarrow> e = ValueError None"
  by (cases "unpack Fmt_I data offset") (auto simp: unpack_I_def dest: unpack_error)

lemma unpack_d_error: "unpack_d data offset = Inl e \<Longrightarrow> e = ValueError None"
  by (cases "unpack Fmt_d data offset") (auto simp: unpack_d_def dest: unpack_error)




lemma read_items_bad_type:
  "type \<noteq> 0 \<Longrightarrow> type \<noteq> 1 \<Longrightarrow>
   read_items (Suc k) type data offset bpms stops = Inl (ValueError None)"
  by (auto simp: Let_def split: sum.splits dest: unpack_I_error unpack_d_error)



lemma read_bad_block:
  fixes cnt ty :: byte
  assumes "cnt \<noteq> 0" "ty \<noteq> 0" "ty \<noteq> 1"
  shows "read_blocks (pre @ cnt # ty # rest) (length pre) bpms stops = Inl (ValueError None)"
proof -
  let ?data = "pre @ cnt # ty # rest"
  have u1: "unpack_B ?data (length pre) = Inr (uint cnt, length pre + 1)"
    by (rule unpack_B_at)
  have l: "length (pre @ [cnt]) = length pre + 1" by simp
  have u2: "unpack_B ?data (length pre + 1) = Inr (uint ty, length pre + 2)"
    using unpack_B_at[of "pre @ [cnt]" ty rest] unfolding l by simp
  have c: "uint cnt \<noteq> 0" using assms(1) by (simp add: uint_0_iff)
  have "0 < uint cnt" using c uint_ge_0[of cnt] by linarith
  then have "0 < nat (uint cnt)" by linarith
  then obtain k where k: "nat (uint cnt) = Suc k"
    using gr0_implies_Suc by blast
  have t: "uint ty \<noteq> 0" "uint ty \<noteq> 1"
    using assms(2,3) by (simp add: uint_0_iff, metis word_of_int_uint word_of_int_1)
  have r: "read_items (Suc k) (uint ty) ?data (length pre + 2) bpms stops = Inl (ValueError None)"
    using t by (rule read_items_bad_type)
  show ?thesis
    by (subst read_blocks.simps)
       (simp only: u1 u2 c k r sum.case prod.case if_False)
qed

text \<open>
  Claim C8. A tempo payload in which a block with a count other than zero carries a type
  byte other than 0 and 1, after any number of well-formed blocks, makes the tempo decoder
  raise \<^verbatim>\<open>ValueError()\<close>: it returns no result.
\<close>

theorem unknown_block_type:
  fixes cnt ty :: byte
  assumes "\<forall>blk \<in> set blks. valid_block blk"
    and "cnt \<noteq> 0" "ty \<noteq> 0" "ty \<noteq> 1"
    and "a85decode body = Inr (concat (map block_bytes blks) @ cnt # ty # rest)"
  shows "clipboard_data_to_tempo (TEMPO_MAGIC @ body) = Inl (ValueError None)"
proof -
  let ?pre = "concat (map block_bytes blks)"
  have "read_blocks ([] @ ?pre @ cnt # ty # rest) (length ([] :: byte list)) [] []
        = read_blocks ([] @ ?pre @ cnt # ty # rest) (length ([] :: byte list) + length ?pre)
            ([] @ items_of_type 0 blks) ([] @ items_of_type 1 blks)"
    using assms(1) by (rule read_blocks_list)
  moreover have "read_blocks (?pre @ cnt # ty # rest) (length ?pre)
                   (items_of_type 0 blks) (items_of_type 1 blks) = Inl (ValueError None)"
    using assms(2-4) by (rule read_bad_block)
  ultimately have "read_blocks (?pre @ cnt # ty # rest) 0 [] [] = Inl (ValueError None)"
    by simp
  then show ?thesis
    using assms(5) by (simp add: clipboard_data_to_tempo_def)
qed

lemma a85decode_bad_block:
  "a85decode ''!<N6$zz!!!'' = Inr [1, 2, 0, 0, 0, 0, 0, 0, 0, 0, 0, 0, 0, 0]"
  by (simp add: a85decode_def replicate_4 le_bytes_4)

theorem unknown_block_type_witness:
  "a85decode ''!<N6$zz!!!'' = Inr [1, 2, 0, 0, 0, 0, 0, 0, 0, 0, 0, 0, 0, 0]
   \<and> clipboard_data_to_tempo ''ArrowVortex:tempo:!<N6$zz!!!'' = Inl (ValueError None)"
proof -
  have "clipboard_data_to_tempo (TEMPO_MAGIC @ ''!<N6$zz!!!'') = Inl (ValueError None)"
    using unknown_block_type[of "[]" 1 2 "''!<N6$zz!!!''" "[0, 0, 0, 0, 0, 0, 0, 0, 0, 0, 0, 0]"]
    by (simp add: a85decode_bad_block)
  then show ?thesis
    by (simp add: a85decode_bad_block TEMPO_MAGIC_def)
qed

section \<open>Truncated payloads\<close>

lemma unpack_take:
  assumes "unpack fmt data offset = Inr (bs, off)"
  shows "unpack fmt (take k data) offset = (if off \<le> k then Inr (bs, off) else Inl (ValueError None))"
proof -
  from assms have o: "off = offset + calcsize fmt" "off \<le> length data"
    and bs: "bs = take (calcsize fmt) (drop offset data)"
    by (auto simp: unpack_def Let_def split: if_splits)
  show ?thesis
  proof (cases "off \<le> k")
    case True
    with o have "take (calcsize fmt) (drop offset (take k data)) = take (calcsize fmt) (drop offset data)"
      by (simp add: drop_take min_def)
    with True o bs show ?thesis by (simp add: unpack_def Let_def)
  next
    case False
    with o show ?thesis by (simp add: unpack_def Let_def)
  qed
qed

lemma unpack_B_take:
  assumes "unpack_B data offset = Inr (x, off)"
  shows "unpack_B (take k data) offset = (if off \<le> k then Inr (x, off) else Inl (ValueError None))"
proof -
  from assms obtain bs where u: "unpack Fmt_B data offset = Inr (bs, off)" and x: "x = int (le_nat bs)"
    by (cases "unpack Fmt_B data offset") (auto simp: unpack_B_def)
  show ?thesis
    using unpack_take[OF u, of k] x by (simp add: unpack_B_def)
qed

lemma unpack_I_take:
  assumes "unpack_I data offset = Inr (x, off)"
  shows "unpack_I (take k data) offset = (if off \<le> k then Inr (x, off) else Inl (ValueError None))"
proof -
  from assms obtain bs where u: "unpack Fmt_I data offset = Inr (bs, off)" and x: "x = int (le_nat bs)"
    by (cases "unpack Fmt_I data offset") (auto simp: unpack_I_def)
  show ?thesis
    using unpack_take[OF u, of k] x by (simp add: unpack_I_def)
qed

lemma unpack_d_take:
  assumes "unpack_d data offset = Inr (x, off)"
  shows "unpack_d (take k data) offset = (if off \<le> k then Inr (x, off) else Inl (ValueError None))"
proof -
  from assms obtain bs where u: "unpack Fmt_d data offset = Inr (bs, off)" and x: "x = of_nat (le_nat bs)"
    by (cases "unpack Fmt_d data offset") (auto simp: unpack_d_def)
  show ?thesis
    using unpack_take[OF u, of k] x by (simp add: unpack_d_def)
qed

lemma unpack_vlc_loop_take:
  "unpack_vlc_loop data offset val num_bytes = Inr (r, off) \<Longrightarrow>
   offset < off \<and>
   unpack_vlc_loop (take k data) offset val num_bytes
     = (if off \<le> k then Inr (r, off) else Inl (ValueError None))"
proof (induction data offset val num_bytes rule: unpack_vlc_loop.induct)
  case (1 data offset val num_bytes)
  from "1.prems" obtain byte off1 where u: "unpack_B data offset = Inr (byte, off1)"
    by (subst (asm) unpack_vlc_loop.simps) (auto split: sum.splits)
  then have o1: "off1 = offset + 1" by (auto dest: unpack_B_offset)
  let ?v = "val OR push_bit (7 * num_bytes) (byte AND 0x7f)"
  note t = unpack_B_take[OF u, of k]
  show ?case
  proof (cases "byte AND 0x80 = 0")
    case True
    with "1.prems" u have e: "r = ?v" "off = off1"
      by (subst (asm) unpack_vlc_loop.simps; simp add: Let_def)+
    show ?thesis
      using t True e o1 by (subst unpack_vlc_loop.simps) (simp add: Let_def)
  next
    case False
    with "1.prems" u have rec: "unpack_vlc_loop data off1 ?v (num_bytes + 1) = Inr (r, off)"
      by (subst (asm) unpack_vlc_loop.simps) (simp add: Let_def)
    from "1.IH"[OF u refl refl refl _ rec] False
    have IH: "off1 < off" "unpack_vlc_loop (take k data) off1 ?v (num_bytes + 1)
               = (if off \<le> k then Inr (r, off) else Inl (ValueError None))"
      by simp_all
    show ?thesis
    proof (cases "off1 \<le> k")
      case True
      with t False IH o1 show ?thesis
        by (subst unpack_vlc_loop.simps) (simp add: Let_def)
    next
      case nk: False
      with IH(1) have "\<not> off \<le> k" by linarith
      with t nk IH o1 show ?thesis
        by (subst unpack_vlc_loop.simps) simp
    qed
  qed
qed

lemma unpack_vlc_take:
  assumes "unpack_vlc data offset = Inr (r, off)"
  shows "offset < off"
    and "unpack_vlc (take k data) offset = (if off \<le> k then Inr (r, off) else Inl (ValueError None))"
  using unpack_vlc_loop_take[of data offset 0 0 r off k] assms by (simp_all add: unpack_vlc_def)


lemma unpack_vlc_mono: "unpack_vlc data offset = Inr (r, off) \<Longrightarrow> offset \<le> off"
  using unpack_vlc_take(1)[of data offset r off] by simp

lemma read_notes_mono:
  "read_notes n data offset acc = Inr (ns, off) \<Longrightarrow> offset \<le> off"
proof (induction n arbitrary: offset acc)
  case 0
  then show ?case by simp
next
  case (Suc n)
  from Suc.prems obtain bits off1 where u1: "unpack_B data offset = Inr (bits, off1)"
    by (auto split: sum.splits)
  then have o1: "offset \<le> off1" by (auto dest: unpack_B_offset)
  show ?case
  proof (cases "bits AND 0x80 \<noteq> 0")
    case True
    from Suc.prems u1 True obtain st off2 where u2: "unpack_vlc data off1 = Inr (st, off2)"
      by (auto simp: Let_def split: sum.splits)
    from Suc.prems u1 True u2 obtain en off3 where u3: "unpack_vlc data off2 = Inr (en, off3)"
      by (auto simp: Let_def split: sum.splits)
    from Suc.prems u1 True u2 u3 obtain sp off4 where u4: "unpack_B data off3 = Inr (sp, off4)"
      by (auto simp: Let_def split: sum.splits)
    from Suc.prems u1 True u2 u3 u4
    have rec: "read_notes n data off4 (acc @ [Note st en (bits AND 0x7f) sp]) = Inr (ns, off)"
      by (simp add: Let_def)
    have "off1 \<le> off2" "off2 \<le> off3" "off3 \<le> off4"
      using unpack_vlc_mono[OF u2] unpack_vlc_mono[OF u3] unpack_B_offset[OF u4] by simp_all
    with o1 Suc.IH[OF rec] show ?thesis by simp
  next
    case False
    from Suc.prems u1 False obtain st off2 where u2: "unpack_vlc data off1 = Inr (st, off2)"
      by (auto simp: Let_def split: sum.splits)
    from Suc.prems u1 False u2
    have rec: "read_notes n data off2 (acc @ [Note st st (bits AND 0x7f) (- 1)]) = Inr (ns, off)"
      by (simp add: Let_def)
    have "off1 \<le> off2"
      using unpack_vlc_mono[OF u2] by simp
    with o1 Suc.IH[OF rec] show ?thesis by simp
  qed
qed

lemma read_notes_take:
  "read_notes n data offset acc = Inr (ns, off) \<Longrightarrow> offset \<le> k \<Longrightarrow>
   read_notes n (take k data) offset acc
     = (if off \<le> k then Inr (ns, off) else Inl (ValueError None))"
proof (induction n arbitrary: offset acc)
  case 0
  then show ?case by simp
next
  case (Suc n)
  from Suc.prems(1) obtain bits off1 where u1: "unpack_B data offset = Inr (bits, off1)"
    by (auto split: sum.splits)
  note t1 = unpack_B_take[OF u1, of k]
  show ?case
  proof (cases "bits AND 0x80 \<noteq> 0")
    case long: True
    from Suc.prems(1) u1 long obtain st off2 where u2: "unpack_vlc data off1 = Inr (st, off2)"
      by (auto simp: Let_def split: sum.splits)
    from Suc.prems(1) u1 long u2 obtain en off3 where u3: "unpack_vlc data off2 = Inr (en, off3)"
      by (auto simp: Let_def split: sum.splits)
    from Suc.prems(1) u1 long u2 u3 obtain sp off4 where u4: "unpack_B data off3 = Inr (sp, off4)"
      by (auto simp: Let_def split: sum.splits)
    from Suc.prems(1) u1 long u2 u3 u4
    have rec: "read_notes n data off4 (acc @ [Note st en (bits AND 0x7f) sp]) = Inr (ns, off)"
      by (simp add: Let_def)
    have m: "off1 < off2" "off2 < off3" "off3 < off4"
      using unpack_vlc_take(1)[OF u2] unpack_vlc_take(1)[OF u3] unpack_B_offset[OF u4] by simp_all
    have "off4 \<le> off"
      using rec by (rule read_notes_mono)
    note t2 = unpack_vlc_take(2)[OF u2, of k]
    note t3 = unpack_vlc_take(2)[OF u3, of k]
    note t4 = unpack_B_take[OF u4, of k]
    show ?thesis
    proof (cases "off4 \<le> k")
      case True
      with m have "off1 \<le> k" "off2 \<le> k" "off3 \<le> k" by simp_all
      with True t1 t2 t3 t4 long Suc.IH[OF rec True] show ?thesis
        by (simp add: Let_def)
    next
      case False
      with \<open>off4 \<le> off\<close> have "\<not> off \<le> k" by simp
      with False t1 t2 t3 t4 long show ?thesis
        by (simp add: Let_def)
    qed
  next
    case short: False
    from Suc.prems(1) u1 short obtain st off2 where u2: "unpack_vlc data off1 = Inr (st, off2)"
      by (auto simp: Let_def split: sum.splits)
    from Suc.prems(1) u1 short u2
    have rec: "read_notes n data off2 (acc @ [Note st st (bits AND 0x7f) (- 1)]) = Inr (ns, off)"
      by (simp add: Let_def)
    have m: "off1 < off2"
      using unpack_vlc_take(1)[OF u2] by simp
    have "off2 \<le> off"
      using rec by (rule read_notes_mono)
    note t2 = unpack_vlc_take(2)[OF u2, of k]
    show ?thesis
    proof (cases "off2 \<le> k")
      case True
      with m have "off1 \<le> k" by simp
      with True t1 t2 short Suc.IH[OF rec True] show ?thesis
        by (simp add: Let_def)
    next
      case False
      with \<open>off2 \<le> off\<close> have "\<not> off \<le> k" by simp
      with False t1 t2 short show ?thesis
        by (simp add: Let_def)
    qed
  qed
qed


lemma read_notes_payload_take:
  assumes "read_notes_payload data = Inr (ns, off)"
  shows "read_notes_payload (take k data)
         = (if off \<le> k then Inr (ns, off) else Inl (ValueError None))"
proof -
  from assms obtain h off1 where u1: "unpack_B data 0 = Inr (h, off1)"
    by (auto simp: read_notes_payload_def split: sum.splits)
  from assms u1 obtain cnt off2 where u2: "unpack_vlc data off1 = Inr (cnt, off2)"
    by (auto simp: read_notes_payload_def split: sum.splits)
  from assms u1 u2 have rec: "read_notes (nat cnt) data off2 [] = Inr (ns, off)"
    by (simp add: read_notes_payload_def)
  have m: "off1 < off2" "off2 \<le> off"
    using unpack_vlc_take(1)[OF u2] read_notes_mono[OF rec] by simp_all
  note t1 = unpack_B_take[OF u1, of k]
  note t2 = unpack_vlc_take(2)[OF u2, of k]
  show ?thesis
  proof (cases "off2 \<le> k")
    case True
    with m have "off1 \<le> k" by simp
    with True t1 t2 read_notes_take[OF rec True] show ?thesis
      by (simp add: read_notes_payload_def)
  next
    case False
    with m have "\<not> off \<le> k" by simp
    with False t1 t2 show ?thesis
      by (simp add: read_notes_payload_def)
  qed
qed

lemma read_items_take:
  "read_items n type data offset bpms stops = Inr (b, s, off) \<Longrightarrow> offset \<le> k \<Longrightarrow>
   read_items n type (take k data) offset bpms stops
     = (if off \<le> k then Inr (b, s, off) else Inl (ValueError None))"
proof (induction n arbitrary: offset bpms stops)
  case 0
  then show ?case by simp
next
  case (Suc n)
  from Suc.prems(1) obtain tick off1 where u1: "unpack_I data offset = Inr (tick, off1)"
    by (auto split: sum.splits)
  from Suc.prems(1) u1 obtain val off2 where u2: "unpack_d data off1 = Inr (val, off2)"
    by (auto split: sum.splits)
  from Suc.prems(1) u1 u2 have ty: "type = 0 \<or> type = 1"
    by (auto simp: Let_def split: if_splits)
  from Suc.prems(1) u1 u2
  have rec: "read_items n type data off2
               (if type = 0 then bpms @ [(tick, val)] else bpms)
               (if type = 0 then stops else stops @ [(tick, val)]) = Inr (b, s, off)"
    by (auto simp: Let_def split: if_splits)
  have m: "off1 < off2" "off2 \<le> off"
    using unpack_d_offset[OF u2] read_items_offset[OF rec] by simp_all
  note t1 = unpack_I_take[OF u1, of k]
  note t2 = unpack_d_take[OF u2, of k]
  show ?case
  proof (cases "off2 \<le> k")
    case True
    with m have "off1 \<le> k" by simp
    with True t1 t2 ty Suc.IH[OF rec True] show ?thesis
      by (auto simp: Let_def)
  next
    case False
    with m have "\<not> off \<le> k" by simp
    with False t1 t2 show ?thesis
      by (simp add: Let_def)
  qed
qed

lemma read_blocks_take:
  "read_blocks data offset bpms stops = Inr (b, s, off) \<Longrightarrow>
   offset < off \<and>
   (offset \<le> k \<longrightarrow>
    read_blocks (take k data) offset bpms stops
      = (if off \<le> k then Inr (b, s, off) else Inl (ValueError None)))"
proof (induction data offset bpms stops rule: read_blocks.induct)
  case (1 data offset bpms stops)
  from "1.prems" obtain cnt off1 where u1: "unpack_B data offset = Inr (cnt, off1)"
    by (subst (asm) read_blocks.simps) (auto split: sum.splits)
  then have o1: "off1 = offset + 1" by (auto dest: unpack_B_offset)
  note t1 = unpack_B_take[OF u1, of k]
  show ?case
  proof (cases "cnt = 0")
    case True
    with "1.prems" u1 have e: "b = bpms" "s = stops" "off = off1"
      by (subst (asm) read_blocks.simps; simp)+
    show ?thesis
      using t1 True e o1 by (subst read_blocks.simps) simp
  next
    case nz: False
    from "1.prems" u1 nz obtain type off2 where u2: "unpack_B data off1 = Inr (type, off2)"
      by (subst (asm) read_blocks.simps) (auto split: sum.splits)
    from "1.prems" u1 nz u2 obtain bpms' stops' off3 where
      u3: "read_items (nat cnt) type data off2 bpms stops = Inr (bpms', stops', off3)"
      by (subst (asm) read_blocks.simps) (auto split: sum.splits)
    from "1.prems" u1 nz u2 u3 have rec: "read_blocks data off3 bpms' stops' = Inr (b, s, off)"
      by (subst (asm) read_blocks.simps) simp
    from "1.IH"[OF u1 refl nz u2 refl u3 refl refl rec]
    have IH: "off3 < off"
      "off3 \<le> k \<Longrightarrow> read_blocks (take k data) off3 bpms' stops'
         = (if off \<le> k then Inr (b, s, off) else Inl (ValueError None))"
      by simp_all
    have m: "off1 < off2" "off2 \<le> off3"
      using unpack_B_offset[OF u2] read_items_offset[OF u3] by simp_all
    note t2 = unpack_B_take[OF u2, of k]
    have lt: "offset < off" using o1 m IH(1) by simp
    have "read_blocks (take k data) offset bpms stops
          = (if off \<le> k then Inr (b, s, off) else Inl (ValueError None))"
    proof (cases "off2 \<le> k")
      case True
      with m have k1: "off1 \<le> k" by simp
      note t3 = read_items_take[OF u3 True]
      show ?thesis
      proof (cases "off3 \<le> k")
        case k3: True
        with True k1 t1 t2 t3 nz IH(2) show ?thesis
          by (subst read_blocks.simps) simp
      next
        case nk3: False
        with IH(1) have "\<not> off \<le> k" by simp
        with True k1 t1 t2 t3 nz nk3 show ?thesis
          by (subst read_blocks.simps) simp
      qed
    next
      case False
      with m IH(1) have "\<not> off \<le> k" by simp
      with False t1 t2 nz show ?thesis
        by (subst read_blocks.simps) simp
    qed
    with lt show ?thesis by simp
  qed
qed

lemma unpack_vlc_loop_continuation:
  "\<forall>b \<in> set (drop offset data). uint b AND 0x80 \<noteq> 0 \<Longrightarrow>
   unpack_vlc_loop data offset val num_bytes = Inl (ValueError None)"
proof (induction data offset val num_bytes rule: unpack_vlc_loop.induct)
  case (1 data offset val num_bytes)
  show ?case
  proof (cases "offset < length data")
    case False
    then show ?thesis
      by (subst unpack_vlc_loop.simps) (simp add: unpack_B_def unpack_def calcsize.simps)
  next
    case True
    then obtain pre b post where d: "data = pre @ b # post" and l: "length pre = offset"
      by (metis id_take_nth_drop length_take min.absorb2 less_imp_le)
    have u: "unpack_B data offset = Inr (uint b, offset + 1)"
      unfolding d l[symmetric] by (rule unpack_B_at)
    from d l have "b \<in> set (drop offset data)" by simp
    with "1.prems" have c: "uint b AND 0x80 \<noteq> 0" by blast
    have "set (drop (offset + 1) data) \<subseteq> set (drop offset data)"
      by (metis set_drop_subset_set_drop le_add1)
    with "1.prems" have "\<forall>b \<in> set (drop (offset + 1) data). uint b AND 0x80 \<noteq> 0"
      by blast
    from "1.IH"[OF u refl refl refl _ this] c
    have "unpack_vlc_loop data (offset + 1) (val OR push_bit (7 * num_bytes) (uint b AND 0x7f))
            (num_bytes + 1) = Inl (ValueError None)"
      by simp
    with u c show ?thesis
      by (subst unpack_vlc_loop.simps) (simp add: Let_def)
  qed
qed


text \<open>
  Claim C6. Take a byte buffer from which a decoder returns a result after reading its
  first \<open>off\<close> bytes, and cut it to fewer than \<open>off\<close> bytes: on a text with the right magic
  prefix that unwraps to the cut buffer, the note decoder and the tempo decoder raise the
  \<^verbatim>\<open>ValueError()\<close> of the bounds check in \<^verbatim>\<open>unpack\<close> and return nothing. A variable-length
  integer whose bytes all carry the continuation bit, up to the end of the buffer, raises
  the same error, in \<^verbatim>\<open>unpack_vlc\<close> and so in the note decoder reading its count.
\<close>

theorem truncated_payload:
  "(read_notes_payload full = Inr (ns, off) \<and> k < off \<and> a85decode body = Inr (take k full)
      \<longrightarrow> clipboard_data_to_notes (NOTES_MAGIC @ body) = Inl (ValueError None))
   \<and> (read_blocks full' 0 [] [] = Inr (bpms, stops, off') \<and> k' < off'
        \<and> a85decode body' = Inr (take k' full')
      \<longrightarrow> clipboard_data_to_tempo (TEMPO_MAGIC @ body') = Inl (ValueError None))
   \<and> ((\<forall>b \<in> set (drop offset data). uint b AND 0x80 \<noteq> 0)
      \<longrightarrow> unpack_vlc data offset = Inl (ValueError None))
   \<and> ((\<forall>b \<in> set vs. uint b AND 0x80 \<noteq> 0) \<and> a85decode body'' = Inr (h # vs)
      \<longrightarrow> clipboard_data_to_notes (NOTES_MAGIC @ body'') = Inl (ValueError None))"
proof (intro conjI impI)
  assume a: "read_notes_payload full = Inr (ns, off) \<and> k < off \<and> a85decode body = Inr (take k full)"
  then have "read_notes_payload (take k full) = Inl (ValueError None)"
    using read_notes_payload_take[of full ns off k] by simp
  with a show "clipboard_data_to_notes (NOTES_MAGIC @ body) = Inl (ValueError None)"
    by (simp add: clipboard_data_to_notes_def)
next
  assume a: "read_blocks full' 0 [] [] = Inr (bpms, stops, off') \<and> k' < off'
             \<and> a85decode body' = Inr (take k' full')"
  then have "read_blocks (take k' full') 0 [] [] = Inl (ValueError None)"
    using read_blocks_take[of full' 0 "[]" "[]" bpms stops off' k'] by simp
  with a show "clipboard_data_to_tempo (TEMPO_MAGIC @ body') = Inl (ValueError None)"
    by (simp add: clipboard_data_to_tempo_def)
next
  assume "\<forall>b \<in> set (drop offset data). uint b AND 0x80 \<noteq> 0"
  then show "unpack_vlc data offset = Inl (ValueError None)"
    unfolding unpack_vlc_def by (rule unpack_vlc_loop_continuation)
next
  assume a: "(\<forall>b \<in> set vs. uint b AND 0x80 \<noteq> 0) \<and> a85decode body'' = Inr (h # vs)"
  have u: "unpack_B ([] @ h # vs) (length ([] :: byte list)) = Inr (uint h, length ([] :: byte list) + 1)"
    by (rule unpack_B_at)
  from a have "\<forall>b \<in> set (drop 1 (h # vs)). uint b AND 0x80 \<noteq> 0" by simp
  then have "unpack_vlc (h # vs) 1 = Inl (ValueError None)"
    unfolding unpack_vlc_def by (rule unpack_vlc_loop_continuation)
  with u have "read_notes_payload (h # vs) = Inl (ValueError None)"
    by (simp add: read_notes_payload_def)
  with a show "clipboard_data_to_notes (NOTES_MAGIC @ body'') = Inl (ValueError None)"
    by (simp add: clipboard_data_to_notes_def)
qed

lemma example_notes_read:
  "read_notes_payload [0, 3, 0, 0, 131, 0, 24, 0, 129, 12, 24, 2]
   = Inr ([make_step 0 0, make_hold 0 24 3, make_roll 12 24 1], 12)"
proof -
  let ?ns = "[make_step 0 0, make_hold 0 24 3, make_roll 12 24 1]"
  have "\<forall>n \<in> set ?ns. encodable n"
    by (simp add: encodable_def is_step_def make_step_def make_hold_def make_roll_def Note_def)
  from read_notes_payload_bytes[OF this, of "[]"]
  have "read_notes_payload [0, 3, 0, 0, 131, 0, 24, 0, 129, 12, 24, 2]
        = Inr (map decoded ?ns, length [0 :: byte, 3, 0, 0, 131, 0, 24, 0, 129, 12, 24, 2])"
    unfolding doctest_notes_bytes[symmetric] by simp
  then show ?thesis
    by (simp add: decoded_def is_step_def make_step_def make_hold_def make_roll_def Note_def)
qed

lemma example_tempo_layout:
  "tempo_layout ([(48, 0x405E000000000000)] :: tempo_item list) []
   = [1, 0, 48, 0, 0, 0, 0, 0, 0, 0, 0, 0, 94, 64, 0]"
  by (simp add: tempo_layout_def chunks_step chunks_Nil tempo_block_def item_bytes_def
      le_bytes_numeral)

lemma example_tempo_read:
  "read_blocks [1, 0, 48, 0, 0, 0, 0, 0, 0, 0, 0, 0, 94, 64, 0] 0 [] []
   = Inr ([(48, 0x405E000000000000)], [], 15)"
proof -
  have "\<forall>item \<in> set ([(48, 0x405E000000000000)] :: tempo_item list) \<union> set []. tick_ok item"
    by (simp add: tick_ok_def)
  from read_blocks_layout[OF this] show ?thesis
    unfolding example_tempo_layout by simp
qed

lemma a85decode_cut_notes:
  "a85decode ''!!<3$K)c_gJIE@'' = Inr [0, 3, 0, 0, 131, 0, 24, 0, 129, 12, 24]"
  by (simp add: a85decode_def replicate_4 le_bytes_4)

lemma a85decode_cut_tempo:
  "a85decode ''!<=eRzz?9e'' = Inr [1, 0, 48, 0, 0, 0, 0, 0, 0, 0, 0, 0, 94, 64]"
  by (simp add: a85decode_def replicate_4 le_bytes_4)

lemma a85decode_continuation:
  "a85decode ''!.]S'' = Inr [0, 128, 128]"
  by (simp add: a85decode_def replicate_4 le_bytes_4)

theorem truncated_payload_witness:
  "read_notes_payload [0, 3, 0, 0, 131, 0, 24, 0, 129, 12, 24, 2]
     = Inr ([make_step 0 0, make_hold 0 24 3, make_roll 12 24 1], 12)
   \<and> a85decode ''!!<3$K)c_gJIE@'' = Inr (take 11 [0, 3, 0, 0, 131, 0, 24, 0, 129, 12, 24, 2])
   \<and> clipboard_data_to_notes ''ArrowVortex:notes:!!<3$K)c_gJIE@'' = Inl (ValueError None)
   \<and> read_blocks [1, 0, 48, 0, 0, 0, 0, 0, 0, 0, 0, 0, 94, 64, 0] 0 [] []
     = Inr ([(48, 0x405E000000000000)], [], 15)
   \<and> a85decode ''!<=eRzz?9e'' = Inr (take 14 [1, 0, 48, 0, 0, 0, 0, 0, 0, 0, 0, 0, 94, 64, 0])
   \<and> clipboard_data_to_tempo ''ArrowVortex:tempo:!<=eRzz?9e'' = Inl (ValueError None)
   \<and> unpack_vlc [0, 128, 128] 1 = Inl (ValueError None)
   \<and> a85decode ''!.]S'' = Inr [0, 128, 128]
   \<and> clipboard_data_to_notes ''ArrowVortex:notes:!.]S'' = Inl (ValueError None)"
proof -
  note t = truncated_payload[of "[0, 3, 0, 0, 131, 0, 24, 0, 129, 12, 24, 2]"
      "[make_step 0 0, make_hold 0 24 3, make_roll 12 24 1]" 12 11 "''!!<3$K)c_gJIE@''"
      "[1, 0, 48, 0, 0, 0, 0, 0, 0, 0, 0, 0, 94, 64, 0]" "[(48, 0x405E000000000000)]" "[]" 15 14
      "''!<=eRzz?9e''" 1 "[0, 128, 128]" "[128, 128]" "''!.]S''" 0]
  have c: "uint (128 :: byte) AND 128 \<noteq> 0" by simp
  from t have "clipboard_data_to_notes (NOTES_MAGIC @ ''!!<3$K)c_gJIE@'') = Inl (ValueError None)"
    by (simp add: example_notes_read a85decode_cut_notes)
  moreover from t have "clipboard_data_to_tempo (TEMPO_MAGIC @ ''!<=eRzz?9e'') = Inl (ValueError None)"
    by (simp add: example_tempo_read a85decode_cut_tempo)
  moreover from t c have "unpack_vlc [0, 128, 128] 1 = Inl (ValueError None)"
    by simp
  moreover from t c have "clipboard_data_to_notes (NOTES_MAGIC @ ''!.]S'') = Inl (ValueError None)"
    by (simp add: a85decode_continuation)
  ultimately show ?thesis
    by (simp add: example_notes_read example_tempo_read a85decode_cut_notes a85decode_cut_tempo
        a85decode_continuation NOTES_MAGIC_def TEMPO_MAGIC_def)
qed

section \<open>The kinds of decode failure\<close>



















end
